theory Spec2Isabelle
  imports Complex_Main "HOL-Library.Multiset" "HOL-Library.Log_Nat"
begin

section \<open>Data model\<close>

text \<open>
  The development follows the class \<open>KNN\<close> of the notebook \<open>knn_workshop.ipynb\<close>.
  A two-dimensional array is the list of its rows.  The features are real numbers: the
  class only compares the distances computed from them and never returns one.  The targets
  are finite float64 values and a prediction is a float64 value, computed by \<open>np.mean\<close> in
  float64 arithmetic: a number, an infinity or \<open>nan\<close>.  Python exceptions are values of type
  \<open>error\<close>.
\<close>

datatype error = AttributeError | ValueError | IndexError

datatype npfloat = NaN | PInf | NInf | Num real

section \<open>float64 arithmetic\<close>

text \<open>
  The targets and the predictions are float64 values.  A finite double is a real number
  \<open>m * 2 ^ e\<close> with \<open>\<bar>m\<bar> < 2 ^ 53\<close> and \<open>- 1074 \<le> e \<le> 971\<close>; every operation computes the exact
  result and rounds it to the nearest double, ties to the even mantissa, and a result of
  magnitude \<open>2 ^ 1024\<close> or more is an infinity.  The two zeros are not distinguished.
\<close>

text \<open>Rounding a real number to the nearest integer, a tie to the even one.\<close>

definition rhe :: "real \<Rightarrow> int" where
  "rhe x = (let f = \<lfloor>x\<rfloor>; d = x - of_int f
            in if d < 1 / 2 then f else if 1 / 2 < d then f + 1 else if even f then f else f + 1)"

text \<open>
  The exponent of the last mantissa bit of the doubles around \<open>x\<close>: \<open>\<lfloor>log\<^sub>2 \<bar>x\<bar>\<rfloor> - 52\<close>, and
  \<open>- 1074\<close> in the subnormal range.  It is computed from the bit length of \<open>\<lfloor>\<bar>x\<bar> * 2 ^ 1074\<rfloor>\<close>.
\<close>

definition f64_exp :: "real \<Rightarrow> int" where
  "f64_exp x = max (bitlen \<lfloor>\<bar>x\<bar> * 2 ^ 1074\<rfloor> - 1127) (- 1074)"

text \<open>The nearest multiple of \<open>2 ^ f64_exp x\<close>, before the check for overflow.\<close>

definition f64_round :: "real \<Rightarrow> real" where
  "f64_round x = of_int (rhe (x / 2 powi f64_exp x)) * 2 powi f64_exp x"

text \<open>The real numbers that are finite doubles.\<close>

definition is_f64 :: "real \<Rightarrow> bool" where
  "is_f64 x \<longleftrightarrow> (\<exists>m e. \<bar>m\<bar> < 2 ^ 53 \<and> - 1074 \<le> e \<and> e \<le> 971 \<and> x = of_int m * 2 powi e)"

text \<open>The float64 value of an exact result.\<close>

definition fl :: "real \<Rightarrow> npfloat" where
  "fl x = (let r = f64_round x
           in if 2 ^ 1024 \<le> r then PInf else if r \<le> - (2 ^ 1024) then NInf else Num r)"

text \<open>
  The type of the finite doubles; \<open>val\<close> is the number a double stands for and \<open>F x\<close> the
  double a literal \<open>x\<close> denotes (the nearest one; \<open>F\<close> is meant for literals within range).
\<close>

typedef f64 = "{x. is_f64 x}"
  morphisms val Abs_f64
  by (rule exI [of _ 0]) (auto simp: is_f64_def intro!: exI [of _ 0])

definition F :: "real \<Rightarrow> f64" where
  "F x = Abs_f64 (let r = f64_round x in if \<bar>r\<bar> < 2 ^ 1024 then r else 0)"

text \<open>Addition of two float64 values, and the division of a sum by a count.\<close>

fun fadd :: "npfloat \<Rightarrow> npfloat \<Rightarrow> npfloat" where
  "fadd (Num a) (Num b) = fl (a + b)"
| "fadd NaN y = NaN"
| "fadd x NaN = NaN"
| "fadd PInf NInf = NaN"
| "fadd NInf PInf = NaN"
| "fadd PInf y = PInf"
| "fadd x PInf = PInf"
| "fadd NInf y = NInf"
| "fadd x NInf = NInf"

fun fdiv :: "npfloat \<Rightarrow> nat \<Rightarrow> npfloat" where
  "fdiv (Num s) n =
     (if n = 0 then (if s = 0 then NaN else if 0 < s then PInf else NInf)
      else fl (s / real n))"
| "fdiv x n = x"

text \<open>
  \<open>np.add.reduce\<close> on a contiguous float64 array is numpy's pairwise summation: up to seven
  elements are added from left to right, starting from zero; up to 128 elements are added in
  eight interleaved accumulators that are then combined as a balanced tree, the remaining
  elements being added from left to right; a longer array is split in two parts (the first
  of a length divisible by eight), each summed the same way.  The reduction adds this sum to
  its initial value \<open>0.0\<close>, which changes nothing.
\<close>

function lanes_loop :: "npfloat list \<Rightarrow> npfloat list \<Rightarrow> npfloat list" where
  "lanes_loop r a =
     (if length a < 8 then r
      else lanes_loop (map (\<lambda>(x, y). fadd x y) (zip r (take 8 a))) (drop 8 a))"
  by pat_completeness auto
termination
  by (relation "measure (\<lambda>(r, a). length a)") auto

definition block_sum :: "npfloat list \<Rightarrow> npfloat" where
  "block_sum a =
     (let m = length a - length a mod 8;
          r = lanes_loop (take 8 a) (take (m - 8) (drop 8 a));
          res = fadd (fadd (fadd (r ! 0) (r ! 1)) (fadd (r ! 2) (r ! 3)))
                     (fadd (fadd (r ! 4) (r ! 5)) (fadd (r ! 6) (r ! 7)))
      in foldl fadd res (drop m a))"

function pairwise_sum :: "npfloat list \<Rightarrow> npfloat" where
  "pairwise_sum a =
     (if length a < 8 then foldl fadd (Num 0) a
      else if length a \<le> 128 then block_sum a
      else (let n2 = length a div 2 - (length a div 2) mod 8
            in fadd (pairwise_sum (take n2 a)) (pairwise_sum (drop n2 a))))"
  by pat_completeness auto
termination
proof (relation "measure length")
  fix a :: "npfloat list" and x :: nat
  assume "\<not> length a < 8" and big: "\<not> length a \<le> 128"
    and x: "x = length a div 2 - length a div 2 mod 8"
  have "length a div 2 mod 8 < 8" by simp
  moreover have "64 \<le> length a div 2" using big by simp
  ultimately have "0 < x" "x < length a" unfolding x by linarith+
  then show "(take x a, a) \<in> measure length" "(drop x a, a) \<in> measure length"
    by simp_all
qed simp

text \<open>
  \<open>np.mean\<close> of a float64 array: the sum divided by the number of elements, the count being
  converted to float64; on an empty array \<open>0.0 / 0\<close>, which is \<open>nan\<close> (with a warning, not an
  exception).
\<close>

definition np_mean :: "f64 list \<Rightarrow> npfloat" where
  "np_mean xs = fdiv (pairwise_sum (map (\<lambda>x. Num (val x)) xs)) (length xs)"

section \<open>The instance\<close>

text \<open>
  An instance carries the attributes \<open>X_train\<close> and \<open>y_train\<close>; before \<open>fit\<close> they do not
  exist (\<open>None\<close>), and reading one raises \<open>AttributeError\<close>.
\<close>

record KNN =
  X_train :: "real list list option"
  y_train :: "f64 list option"

definition KNN_init :: KNN where
  "KNN_init = \<lparr>X_train = None, y_train = None\<rparr>"

section \<open>Library functions used by the class\<close>

text \<open>
  \<open>u - v\<close> on one-dimensional arrays: elementwise when the lengths agree, broadcast when one
  of them has length one, \<open>ValueError\<close> otherwise.
\<close>

definition broadcast_sub :: "real list \<Rightarrow> real list \<Rightarrow> error + real list" where
  "broadcast_sub u v =
     (if length u = length v then Inr (map (\<lambda>(a, b). a - b) (zip u v))
      else if length u = 1 then Inr (map (\<lambda>b. hd u - b) v)
      else if length v = 1 then Inr (map (\<lambda>a. a - hd v) u)
      else Inl ValueError)"

definition norm2 :: "real list \<Rightarrow> real" where
  "norm2 w = sqrt (sum_list (map (\<lambda>x. x ^ 2) w))"

text \<open>\<open>scipy.spatial.distance.euclidean\<close>, imported as \<open>euc\<close>: the 2-norm of \<open>u - v\<close>.\<close>

definition euc :: "real list \<Rightarrow> real list \<Rightarrow> error + real" where
  "euc u v = (case broadcast_sub u v of Inl e \<Rightarrow> Inl e | Inr w \<Rightarrow> Inr (norm2 w))"

text \<open>
  \<open>np.argsort(distances)\<close> is called with its default sorting kind, which numpy documents
  as not stable.  What the library promises is that the result is a permutation of the
  indices \<open>0..<n\<close> that lists the values in ascending order; how equal values are ordered
  is left to the implementation.  The class is therefore modelled over an arbitrary
  function \<open>argsort\<close>, and \<open>argsort_ok\<close> is the promise.
\<close>

type_synonym argsort = "real list \<Rightarrow> nat list"

definition argsort_ok :: "argsort \<Rightarrow> bool" where
  "argsort_ok A \<longleftrightarrow>
     (\<forall>ds. mset (A ds) = mset [0..<length ds] \<and> sorted (map (\<lambda>i. ds ! i) (A ds)))"

text \<open>An implementation that keeps the promise: the stable sort, ties by ascending index.\<close>

definition stable_argsort :: argsort where
  "stable_argsort ds = sort_key (\<lambda>i. ds ! i) [0..<length ds]"

text \<open>The slice \<open>xs[:k]\<close> for an integer \<open>k\<close>; a negative \<open>k\<close> counts from the end.\<close>

definition slice_to :: "'a list \<Rightarrow> int \<Rightarrow> 'a list" where
  "slice_to xs k = (if 0 \<le> k then take (nat k) xs else take (length xs - nat (- k)) xs)"

text \<open>\<open>ys[idxs]\<close> for an array of non-negative indices: \<open>IndexError\<close> when one is out of bounds.\<close>

definition fancy_index :: "'a list \<Rightarrow> nat list \<Rightarrow> error + 'a list" where
  "fancy_index ys idxs =
     (if list_all (\<lambda>i. i < length ys) idxs then Inr (map (\<lambda>i. ys ! i) idxs) else Inl IndexError)"

section \<open>The class KNN\<close>

text \<open>\<open>fit\<close> assigns the two attributes and does nothing else; it has no failing branch.\<close>

definition fit :: "KNN \<Rightarrow> real list list \<Rightarrow> f64 list \<Rightarrow> error + KNN" where
  "fit self X y = Inr (self\<lparr>X_train := Some X, y_train := Some y\<rparr>)"

text \<open>
  \<open>_get_distances\<close>: an array of zeros, one per training row, filled by index in a loop over
  \<open>enumerate(self.X_train)\<close>.  The array has as many entries as there are rows, so every
  assignment \<open>distances[i] = \<dots>\<close> is within bounds; the same holds for \<open>predictions\<close> below.
\<close>

fun get_distances_loop ::
  "real list \<Rightarrow> (nat \<times> real list) list \<Rightarrow> real list \<Rightarrow> error + real list" where
  "get_distances_loop x [] distances = Inr distances"
| "get_distances_loop x ((i, point) # rest) distances =
     (case euc x point of
        Inl e \<Rightarrow> Inl e
      | Inr d \<Rightarrow> get_distances_loop x rest (distances[i := d]))"

definition get_distances :: "KNN \<Rightarrow> real list \<Rightarrow> error + real list" where
  "get_distances self x =
     (case X_train self of
        None \<Rightarrow> Inl AttributeError
      | Some X \<Rightarrow> get_distances_loop x (enumerate 0 X) (replicate (length X) 0))"

text \<open>\<open>_get_k_nearest\<close>: \<open>np.argsort(distances)[:k]\<close>.\<close>

definition get_k_nearest :: "argsort \<Rightarrow> real list \<Rightarrow> int \<Rightarrow> nat list" where
  "get_k_nearest A distances k = slice_to (A distances) k"

text \<open>\<open>_get_predicted_value\<close>: \<open>np.mean(self.y_train[k_nearest])\<close>.\<close>

definition get_predicted_value :: "KNN \<Rightarrow> nat list \<Rightarrow> error + npfloat" where
  "get_predicted_value self k_nearest =
     (case y_train self of
        None \<Rightarrow> Inl AttributeError
      | Some ys \<Rightarrow>
          (case fancy_index ys k_nearest of
             Inl e \<Rightarrow> Inl e
           | Inr sel \<Rightarrow> Inr (np_mean sel)))"

text \<open>
  \<open>predict\<close>: an array of zeros, one per query, filled by index in a loop over
  \<open>enumerate(X_test)\<close>; the first exception ends the call.  The method is a state
  transformer like \<open>fit\<close>: it returns the instance it leaves behind and the outcome.
\<close>

fun predict_loop ::
  "argsort \<Rightarrow> KNN \<Rightarrow> (nat \<times> real list) list \<Rightarrow> int \<Rightarrow> npfloat list \<Rightarrow> error + npfloat list" where
  "predict_loop A self [] k predictions = Inr predictions"
| "predict_loop A self ((i, point) # rest) k predictions =
     (case get_distances self point of
        Inl e \<Rightarrow> Inl e
      | Inr distances \<Rightarrow>
          (case get_predicted_value self (get_k_nearest A distances k) of
             Inl e \<Rightarrow> Inl e
           | Inr prediction \<Rightarrow> predict_loop A self rest k (predictions[i := prediction])))"

definition predict ::
  "argsort \<Rightarrow> KNN \<Rightarrow> real list list \<Rightarrow> int \<Rightarrow> KNN \<times> (error + npfloat list)" where
  "predict A self X_test k =
     (self, predict_loop A self (enumerate 0 X_test) k (replicate (length X_test) (Num 0)))"

section \<open>Notions used to state the properties\<close>

text \<open>
  The Euclidean distance of two vectors of one length, the prediction for a single query
  (one pass through the body of the loop of \<open>predict\<close>), and the outcome of a sequence of
  computations of which the first exception wins.
\<close>

definition euclid :: "real list \<Rightarrow> real list \<Rightarrow> real" where
  "euclid u v = sqrt (\<Sum>(a, b)\<leftarrow>zip u v. (a - b) ^ 2)"

definition predict_one :: "argsort \<Rightarrow> KNN \<Rightarrow> int \<Rightarrow> real list \<Rightarrow> error + npfloat" where
  "predict_one A self k point =
     (case get_distances self point of
        Inl e \<Rightarrow> Inl e
      | Inr distances \<Rightarrow> get_predicted_value self (get_k_nearest A distances k))"

fun collect :: "(error + 'a) list \<Rightarrow> error + 'a list" where
  "collect [] = Inr []"
| "collect (r # rs) =
     (case r of
        Inl e \<Rightarrow> Inl e
      | Inr v \<Rightarrow> (case collect rs of Inl e \<Rightarrow> Inl e | Inr vs \<Rightarrow> Inr (v # vs)))"

text \<open>
  The outcome of a sequence of calls that each return a sequence: the first exception, or
  the concatenation of the results.
\<close>

fun concat_results :: "(error + 'a list) list \<Rightarrow> error + 'a list" where
  "concat_results [] = Inr []"
| "concat_results (r # rs) =
     (case r of
        Inl e \<Rightarrow> Inl e
      | Inr v \<Rightarrow> (case concat_results rs of Inl e \<Rightarrow> Inl e | Inr vs \<Rightarrow> Inr (v @ vs)))"

text \<open>The sum of the magnitudes of a list of numbers.\<close>

definition abs_sum :: "real list \<Rightarrow> real" where
  "abs_sum vs = sum_list (map abs vs)"

text \<open>The training set of the worked example: three points in the plane.\<close>

definition example_model :: KNN where
  "example_model =
     \<lparr>X_train = Some [[0, 0], [10, 0], [0, 10]], y_train = Some [F 10, F 20, F 30]\<rparr>"


definition tenth_model :: KNN where
  "tenth_model =
     \<lparr>X_train = Some [[0, 0], [10, 0], [0, 10]], y_train = Some [F (1 / 10), F (1 / 10), F (1 / 10)]\<rparr>"

definition huge_model :: KNN where
  "huge_model =
     \<lparr>X_train = Some [[0], [1], [10]], y_train = Some [F (10 ^ 308), F (10 ^ 308), F 0]\<rparr>"

section \<open>Rounding to the nearest double\<close>

lemma rhe_of_int [simp]: "rhe (of_int i) = i"
  by (simp add: rhe_def)

lemma rhe_bounds: "of_int (rhe x) \<le> x + 1 / 2" "x - 1 / 2 \<le> of_int (rhe x)"
  unfolding rhe_def Let_def by (auto; linarith)+

lemma rhe_floor_le: "\<lfloor>x\<rfloor> \<le> rhe x"
  by (simp add: rhe_def Let_def)

lemma rhe_le_ceiling: "rhe x \<le> \<lceil>x\<rceil>"
  unfolding rhe_def Let_def by (auto simp: ceiling_altdef) 

lemma f64_exp_ge: "- 1074 \<le> f64_exp x"
  by (simp add: f64_exp_def)

lemma scaled_less:
  fixes y :: real
  assumes "y * 2 ^ n < 2 ^ k"
  shows "y < 2 powi (int k - int n)"
proof -
  have "y * 2 ^ n * 2 powi (- int n) < 2 ^ k * 2 powi (- int n)"
    using assms by (intro mult_strict_right_mono) simp_all
  moreover have "(2::real) ^ n * 2 powi (- int n) = 1"
    by (simp add: power_int_minus)
  moreover have "(2::real) ^ k * 2 powi (- int n) = 2 powi (int k - int n)"
    by (simp add: power_int_diff power_int_minus field_simps)
  ultimately show ?thesis by (simp add: mult.assoc)
qed

lemma scaled_ge:
  fixes y :: real
  assumes "2 ^ k \<le> y * 2 ^ n"
  shows "2 powi (int k - int n) \<le> y"
proof -
  have "2 ^ k * 2 powi (- int n) \<le> y * 2 ^ n * 2 powi (- int n)"
    using assms by (intro mult_right_mono) simp_all
  moreover have "(2::real) ^ n * 2 powi (- int n) = 1"
    by (simp add: power_int_minus)
  moreover have "(2::real) ^ k * 2 powi (- int n) = 2 powi (int k - int n)"
    by (simp add: power_int_diff power_int_minus field_simps)
  ultimately show ?thesis by (simp add: mult.assoc)
qed

lemma exp_of_bitlen:
  fixes x :: real and n :: nat
  defines "b \<equiv> bitlen \<lfloor>\<bar>x\<bar> * 2 ^ n\<rfloor>"
  shows "\<bar>x\<bar> < 2 powi (b - int n)"
    and "1 \<le> b \<Longrightarrow> 2 powi (b - 1 - int n) \<le> \<bar>x\<bar>"
proof -
  define N where "N = \<lfloor>\<bar>x\<bar> * 2 ^ n\<rfloor>"
  have N0: "0 \<le> N" by (simp add: N_def)
  have Nle: "of_int N \<le> \<bar>x\<bar> * 2 ^ n" and Nlt: "\<bar>x\<bar> * 2 ^ n < of_int N + 1"
    by (simp_all add: N_def)
  have b: "b = bitlen N" by (simp add: b_def N_def)
  have b0: "0 \<le> b" by (simp add: b bitlen_nonneg)
  have "N < 2 ^ nat b"
  proof (cases "N = 0")
    case True then show ?thesis by simp
  next
    case False
    then show ?thesis using bitlen_bounds [of N] N0 by (simp add: b)
  qed
  then have "N + 1 \<le> 2 ^ nat b" by simp
  then have "of_int (N + 1) \<le> (of_int (2 ^ nat b) :: real)" by (simp only: of_int_le_iff)
  moreover have "(of_int (2 ^ nat b) :: real) = 2 ^ nat b" by simp
  moreover have "(of_int (N + 1) :: real) = of_int N + 1" by simp
  ultimately have "of_int N + 1 \<le> (2::real) ^ nat b" by (simp only:)
  with Nlt have "\<bar>x\<bar> * 2 ^ n < 2 ^ nat b" by (rule less_le_trans)
  from scaled_less [OF this] b0 show "\<bar>x\<bar> < 2 powi (b - int n)" by simp
  assume b1: "1 \<le> b"
  then have pos: "0 < N" by (cases "N = 0") (use N0 in \<open>auto simp: b\<close>)
  have "2 ^ nat (b - 1) \<le> N" using bitlen_bounds [OF pos] by (simp add: b)
  then have "(of_int (2 ^ nat (b - 1)) :: real) \<le> of_int N" by (simp only: of_int_le_iff)
  moreover have "(of_int (2 ^ nat (b - 1)) :: real) = 2 ^ nat (b - 1)" by simp
  ultimately have "(2::real) ^ nat (b - 1) \<le> of_int N" by (simp only:)
  then have "(2::real) ^ nat (b - 1) \<le> \<bar>x\<bar> * 2 ^ n" using Nle by (rule order_trans)
  from scaled_ge [OF this] b1 show "2 powi (b - 1 - int n) \<le> \<bar>x\<bar>" by simp
qed

lemma f64_exp_bounds:
  shows "\<bar>x\<bar> < 2 powi (f64_exp x + 53)"
    and "f64_exp x = - 1074 \<or> 2 powi (f64_exp x + 52) \<le> \<bar>x\<bar>"
proof -
  define b where "b = bitlen \<lfloor>\<bar>x\<bar> * 2 ^ 1074\<rfloor>"
  have e: "f64_exp x = max (b - 1127) (- 1074)" by (simp only: f64_exp_def b_def)
  have up: "\<bar>x\<bar> < 2 powi (b - 1074)"
    using exp_of_bitlen(1) [of x 1074] by (simp only: b_def of_nat_numeral)
  have lo: "2 powi (b - 1075) \<le> \<bar>x\<bar>" if "1 \<le> b"
  proof -
    have "2 powi (b - 1 - 1074) \<le> \<bar>x\<bar>"
      using exp_of_bitlen(2) [of x 1074] that by (simp only: b_def of_nat_numeral)
    moreover have "b - 1 - 1074 = b - 1075" by simp
    ultimately show ?thesis by (simp only:)
  qed
  have "(2::real) powi (b - 1074) \<le> 2 powi (f64_exp x + 53)"
    unfolding e by (intro power_int_increasing) simp_all
  then show "\<bar>x\<bar> < 2 powi (f64_exp x + 53)" using up by simp
  show "f64_exp x = - 1074 \<or> 2 powi (f64_exp x + 52) \<le> \<bar>x\<bar>"
  proof (cases "b - 1127 \<le> - 1074")
    case True
    then show ?thesis by (simp add: e)
  next
    case False
    then have e1: "f64_exp x + 52 = b - 1075" and b1: "1 \<le> b" by (simp_all add: e)
    have "2 powi (f64_exp x + 52) \<le> \<bar>x\<bar>" using lo [OF b1] by (simp only: e1)
    then show ?thesis ..
  qed
qed


lemma pow2_less_D: "(2::real) powi a < 2 powi b \<Longrightarrow> a < b"
proof (rule ccontr)
  assume l: "(2::real) powi a < 2 powi b" and "\<not> a < b"
  then have "b \<le> a" by simp
  then have "(2::real) powi b \<le> 2 powi a" by (intro power_int_increasing) simp_all
  with l show False by simp
qed

lemma f64_exp_eq:
  assumes "2 powi (e + 52) \<le> \<bar>x\<bar>" and "\<bar>x\<bar> < 2 powi (e + 53)" and "- 1074 \<le> e"
  shows "f64_exp x = e"
proof -
  have "(2::real) powi (e + 52) < 2 powi (f64_exp x + 53)"
    using assms(1) f64_exp_bounds(1) [of x] by (rule le_less_trans)
  then have le: "e \<le> f64_exp x" using pow2_less_D by fastforce
  show ?thesis
  proof (cases "f64_exp x = - 1074")
    case True
    then show ?thesis using le assms(3) by simp
  next
    case False
    then have "2 powi (f64_exp x + 52) \<le> \<bar>x\<bar>" using f64_exp_bounds(2) [of x] by simp
    then have "(2::real) powi (f64_exp x + 52) < 2 powi (e + 53)"
      using assms(2) by (rule le_less_trans)
    then have "f64_exp x \<le> e" using pow2_less_D by fastforce
    then show ?thesis using le by simp
  qed
qed

lemma f64_exp_subnormal:
  assumes "\<bar>x\<bar> < 2 powi (- 1022)"
  shows "f64_exp x = - 1074"
proof (rule ccontr)
  assume "f64_exp x \<noteq> - 1074"
  then have "2 powi (f64_exp x + 52) \<le> \<bar>x\<bar>" and "- 1074 < f64_exp x"
    using f64_exp_bounds(2) [of x] f64_exp_ge [of x] by simp_all
  then have "(2::real) powi (f64_exp x + 52) < 2 powi (- 1022)" using assms by simp
  then have "f64_exp x + 52 < - 1022" by (rule pow2_less_D)
  with \<open>- 1074 < f64_exp x\<close> show False by simp
qed

lemma f64_round_eval:
  assumes "2 powi (e + 52) \<le> \<bar>x\<bar>" and "\<bar>x\<bar> < 2 powi (e + 53)" and "- 1074 \<le> e"
  shows "f64_round x = of_int (rhe (x / 2 powi e)) * 2 powi e"
  by (simp only: f64_round_def f64_exp_eq [OF assms])

lemma f64_round_0 [simp]: "f64_round 0 = 0"
  using rhe_of_int [of 0] by (simp add: f64_round_def)

lemma real_abs_less_pow:
  fixes m :: int
  assumes "\<bar>m\<bar> < 2 ^ n"
  shows "\<bar>real_of_int m\<bar> < 2 ^ n"
proof -
  have "real_of_int \<bar>m\<bar> < real_of_int (2 ^ n)" using assms by (simp only: of_int_less_iff)
  then show ?thesis by simp
qed

lemma f64_round_id:
  assumes "is_f64 x"
  shows "f64_round x = x"
proof -
  obtain m ex where m: "\<bar>m\<bar> < 2 ^ 53" and ex: "- 1074 \<le> ex" "ex \<le> 971"
    and x: "x = of_int m * 2 powi ex"
    using assms by (auto simp: is_f64_def)
  let ?e = "f64_exp x"
  have "\<bar>x\<bar> = \<bar>of_int m\<bar> * 2 powi ex" by (simp add: x abs_mult)
  also have "\<dots> < 2 ^ 53 * 2 powi ex"
  proof -
    have "\<bar>real_of_int m\<bar> < 2 ^ 53" using m by (rule real_abs_less_pow)
    then show ?thesis by (intro mult_strict_right_mono) simp_all
  qed
  also have "\<dots> = 2 powi (ex + 53)" by (simp add: power_int_add)
  finally have ub: "\<bar>x\<bar> < 2 powi (ex + 53)" .
  have le: "?e \<le> ex"
  proof (cases "?e = - 1074")
    case True then show ?thesis using ex by simp
  next
    case False
    then have "2 powi (?e + 52) \<le> \<bar>x\<bar>" using f64_exp_bounds(2) [of x] by simp
    then have "(2::real) powi (?e + 52) < 2 powi (ex + 53)" using ub by (rule le_less_trans)
    then show ?thesis using pow2_less_D by fastforce
  qed
  have "x / 2 powi ?e = of_int m * (2 powi ex / 2 powi ?e)" by (simp add: x)
  also have "2 powi ex / 2 powi ?e = (2::real) powi (ex - ?e)" by (simp add: power_int_diff)
  also have "\<dots> = 2 ^ nat (ex - ?e)" using le by (simp add: power_int_def)
  also have "of_int m * 2 ^ nat (ex - ?e) = (of_int (m * 2 ^ nat (ex - ?e)) :: real)" by simp
  finally have "rhe (x / 2 powi ?e) = m * 2 ^ nat (ex - ?e)" by (simp only: rhe_of_int)
  then have "f64_round x = of_int (m * 2 ^ nat (ex - ?e)) * 2 powi ?e"
    by (simp only: f64_round_def)
  also have "\<dots> = of_int m * (2 powi (ex - ?e) * 2 powi ?e)"
    using le by (simp add: power_int_def)
  also have "2 powi (ex - ?e) * 2 powi ?e = (2::real) powi ex"
    by (simp add: power_int_add [symmetric])
  finally show ?thesis by (simp add: x)
qed

lemma is_f64_bound:
  assumes "is_f64 x"
  shows "\<bar>x\<bar> < 2 ^ 1024"
proof -
  obtain m ex where m: "\<bar>m\<bar> < 2 ^ 53" and ex: "- 1074 \<le> ex" "ex \<le> 971"
    and x: "x = of_int m * 2 powi ex"
    using assms by (auto simp: is_f64_def)
  have "\<bar>real_of_int m\<bar> < 2 ^ 53" using m by (rule real_abs_less_pow)
  then have "\<bar>real_of_int m\<bar> * 2 powi ex < 2 ^ 53 * 2 powi ex"
    by (intro mult_strict_right_mono) simp_all
  then have "\<bar>x\<bar> < 2 ^ 53 * 2 powi ex" by (simp add: x abs_mult)
  also have "\<dots> = 2 powi (ex + 53)" by (simp add: power_int_add)
  also have "\<dots> \<le> 2 powi 1024" using ex by (intro power_int_increasing) simp_all
  also have "\<dots> = 2 ^ 1024" by (simp only: power_int_numeral)
  finally show ?thesis .
qed

lemma fl_id: "is_f64 x \<Longrightarrow> fl x = Num x"
  using is_f64_bound [of x] by (simp add: fl_def f64_round_id Let_def del: power_numeral) linarith

lemma is_f64_I:
  "\<bar>m\<bar> < 2 ^ 53 \<Longrightarrow> - 1074 \<le> e \<Longrightarrow> e \<le> 971 \<Longrightarrow> x = of_int m * 2 powi e \<Longrightarrow> is_f64 x"
  unfolding is_f64_def by blast

lemma is_f64_of_int:
  assumes "\<bar>i\<bar> \<le> 2 ^ 53"
  shows "is_f64 (of_int i)"
proof (cases "\<bar>i\<bar> = 2 ^ 53")
  case True
  then have "i = 2 * 2 ^ 52 \<or> i = 2 * (- (2 ^ 52))" by (simp add: abs_if split: if_splits)
  then obtain h :: int where h: "i = 2 * h" "\<bar>h\<bar> < 2 ^ 53" by fastforce
  show ?thesis
  proof (rule is_f64_I [OF h(2)])
    show "real_of_int i = real_of_int h * 2 powi 1" by (simp add: h(1))
  qed simp_all
next
  case False
  then have "\<bar>i\<bar> < 2 ^ 53" using assms by simp
  then show ?thesis
    by (rule is_f64_I [where e = 0]) simp_all
qed

lemma is_f64_0 [simp]: "is_f64 0"
  using is_f64_of_int [of 0] by simp

lemma is_f64_uminus: "is_f64 x \<Longrightarrow> is_f64 (- x)"
  unfolding is_f64_def
  by (elim exE conjE, rule_tac x = "- m" in exI, rule_tac x = e in exI) simp


lemma f64_grid:
  assumes "is_f64 d"
  shows "(\<exists>k::int. d = of_int k * 2 powi f64_exp x)
         \<or> (\<bar>d\<bar> < 2 powi (f64_exp x + 52) \<and> 2 powi (f64_exp x + 52) \<le> \<bar>x\<bar>)"
proof -
  obtain m ed where m: "\<bar>m\<bar> < 2 ^ 53" and ed: "- 1074 \<le> ed" "ed \<le> 971"
    and d: "d = of_int m * 2 powi ed"
    using assms by (auto simp: is_f64_def)
  let ?e = "f64_exp x"
  show ?thesis
  proof (cases "?e \<le> ed")
    case True
    have "(2::real) powi ed = 2 powi (ed - ?e) * 2 powi ?e"
      by (simp add: power_int_add [symmetric])
    also have "(2::real) powi (ed - ?e) = of_int (2 ^ nat (ed - ?e))"
      using True by (simp add: power_int_def)
    finally have "d = of_int (m * 2 ^ nat (ed - ?e)) * 2 powi ?e"
      by (simp add: d)
    then show ?thesis by blast
  next
    case False
    then have lt: "ed + 1 \<le> ?e" by simp
    then have "?e \<noteq> - 1074" using ed by simp
    then have lo: "2 powi (?e + 52) \<le> \<bar>x\<bar>" using f64_exp_bounds(2) [of x] by simp
    have "\<bar>real_of_int m\<bar> < 2 ^ 53" using m by (rule real_abs_less_pow)
    then have "\<bar>real_of_int m\<bar> * 2 powi ed < 2 ^ 53 * 2 powi ed"
      by (intro mult_strict_right_mono) simp_all
    then have "\<bar>d\<bar> < 2 ^ 53 * 2 powi ed" by (simp add: d abs_mult)
    also have "\<dots> = 2 powi (ed + 53)" by (simp add: power_int_add)
    also have "\<dots> \<le> 2 powi (?e + 52)" using lt by (intro power_int_increasing) simp_all
    finally show ?thesis using lo by simp
  qed
qed

lemma of_int_mult_pow2_le:
  fixes k :: int and y :: real
  shows "of_int k * 2 powi e \<le> y \<longleftrightarrow> of_int k \<le> y / 2 powi e"
  by (simp add: pos_le_divide_eq)

lemma f64_round_ge:
  assumes "is_f64 d" and "d \<le> x"
  shows "d \<le> f64_round x"
proof -
  let ?e = "f64_exp x"
  let ?p = "(2::real) powi ?e"
  have p: "0 < ?p" by simp
  from f64_grid [OF assms(1), of x] show ?thesis
  proof (elim disjE exE conjE)
    fix k :: int assume d: "d = of_int k * ?p"
    then have "of_int k \<le> x / ?p" using assms(2) by (simp add: pos_le_divide_eq)
    then have "k \<le> \<lfloor>x / ?p\<rfloor>" by (simp add: le_floor_iff)
    then have "k \<le> rhe (x / ?p)" using rhe_floor_le [of "x / ?p"] by simp
    then have "real_of_int k \<le> of_int (rhe (x / ?p))" by (simp only: of_int_le_iff)
    then have "of_int k * ?p \<le> of_int (rhe (x / ?p)) * ?p"
      by (intro mult_right_mono) simp_all
    then show ?thesis by (simp only: d f64_round_def)
  next
    assume small: "\<bar>d\<bar> < 2 powi (?e + 52)" and big: "2 powi (?e + 52) \<le> \<bar>x\<bar>"
    have "0 < x"
    proof (rule ccontr)
      assume "\<not> 0 < x"
      then have "\<bar>x\<bar> \<le> \<bar>d\<bar>" using assms(2) by simp
      with small big show False by simp
    qed
    then have bx: "2 powi (?e + 52) \<le> x" using big by simp
    define K :: int where "K = 2 ^ 52"
    have Kp: "of_int K * ?p = 2 powi (?e + 52)"
      by (simp add: K_def power_int_add mult.commute)
    have "of_int K * ?p \<le> x" using bx by (simp only: Kp)
    then have "of_int K \<le> x / ?p" by (simp add: pos_le_divide_eq)
    then have "K \<le> \<lfloor>x / ?p\<rfloor>" by (simp only: le_floor_iff)
    then have "K \<le> rhe (x / ?p)" using rhe_floor_le [of "x / ?p"] by (rule order_trans)
    then have "real_of_int K \<le> of_int (rhe (x / ?p))" by (simp only: of_int_le_iff)
    then have "of_int K * ?p \<le> of_int (rhe (x / ?p)) * ?p"
      by (intro mult_right_mono) simp_all
    then have "2 powi (?e + 52) \<le> f64_round x" by (simp only: Kp f64_round_def)
    then show ?thesis using small by simp
  qed
qed

lemma f64_round_le:
  assumes "is_f64 d" and "x \<le> d"
  shows "f64_round x \<le> d"
proof -
  let ?e = "f64_exp x"
  let ?p = "(2::real) powi ?e"
  have p: "0 < ?p" by simp
  from f64_grid [OF assms(1), of x] show ?thesis
  proof (elim disjE exE conjE)
    fix k :: int assume d: "d = of_int k * ?p"
    then have "x / ?p \<le> of_int k" using assms(2) by (simp add: pos_divide_le_eq)
    then have "\<lceil>x / ?p\<rceil> \<le> k" by (simp add: ceiling_le_iff)
    then have "rhe (x / ?p) \<le> k" using rhe_le_ceiling [of "x / ?p"] by simp
    then have "real_of_int (rhe (x / ?p)) \<le> of_int k" by (simp only: of_int_le_iff)
    then have "of_int (rhe (x / ?p)) * ?p \<le> of_int k * ?p"
      by (intro mult_right_mono) simp_all
    then show ?thesis by (simp only: d f64_round_def)
  next
    assume small: "\<bar>d\<bar> < 2 powi (?e + 52)" and big: "2 powi (?e + 52) \<le> \<bar>x\<bar>"
    have "x < 0"
    proof (rule ccontr)
      assume "\<not> x < 0"
      then have "\<bar>x\<bar> \<le> \<bar>d\<bar>" using assms(2) by simp
      with small big show False by simp
    qed
    then have bx: "x \<le> - (2 powi (?e + 52))" using big by simp
    define K :: int where "K = - (2 ^ 52)"
    have Kp: "of_int K * ?p = - (2 powi (?e + 52))"
      by (simp add: K_def power_int_add mult.commute)
    have "x \<le> of_int K * ?p" using bx by (simp only: Kp)
    then have "x / ?p \<le> of_int K" by (simp add: pos_divide_le_eq)
    then have "\<lceil>x / ?p\<rceil> \<le> K" by (simp only: ceiling_le_iff)
    with rhe_le_ceiling [of "x / ?p"] have "rhe (x / ?p) \<le> K" by (rule order_trans)
    then have "real_of_int (rhe (x / ?p)) \<le> of_int K" by (simp only: of_int_le_iff)
    then have "of_int (rhe (x / ?p)) * ?p \<le> of_int K * ?p"
      by (intro mult_right_mono) simp_all
    then have "f64_round x \<le> - (2 powi (?e + 52))" by (simp only: Kp f64_round_def)
    then show ?thesis using small by simp
  qed
qed

lemma fl_between:
  assumes "is_f64 lo" and "is_f64 hi" and "lo \<le> x" and "x \<le> hi"
  shows "\<exists>r. fl x = Num r \<and> lo \<le> r \<and> r \<le> hi"
proof -
  have l: "lo \<le> f64_round x" by (rule f64_round_ge [OF assms(1,3)])
  have h: "f64_round x \<le> hi" by (rule f64_round_le [OF assms(2,4)])
  have "- (2 ^ 1024) < lo" "hi < 2 ^ 1024"
    using is_f64_bound [OF assms(1)] is_f64_bound [OF assms(2)] by linarith+
  then have "- (2 ^ 1024) < f64_round x" "f64_round x < 2 ^ 1024" using l h by linarith+
  then have "fl x = Num (f64_round x)" by (simp add: fl_def Let_def del: power_numeral)
  then show ?thesis using l h by blast
qed

lemma is_f64_f64_round:
  assumes "\<bar>f64_round x\<bar> < 2 ^ 1024"
  shows "is_f64 (f64_round x)"
proof -
  let ?e = "f64_exp x"
  let ?p = "(2::real) powi ?e"
  let ?y = "x / ?p"
  define m where "m = rhe ?y"
  define K :: int where "K = 2 ^ 52"
  have K2: "2 * K = 2 ^ 53" by (simp add: K_def)
  have r: "f64_round x = of_int m * ?p" by (simp only: f64_round_def m_def)
  have p: "0 < ?p" by simp
  have "\<bar>x\<bar> < ?p * 2 ^ 53" using f64_exp_bounds(1) [of x] by (simp add: power_int_add)
  then have "\<bar>x\<bar> < ?p * of_int (2 * K)" by (simp only: K2 of_int_power of_int_numeral)
  then have "\<bar>?y\<bar> < of_int (2 * K)" by (simp add: pos_divide_less_eq mult.commute)
  then have y: "?y < of_int (2 * K)" "of_int (- (2 * K)) < ?y"
    using abs_ge_self [of ?y] abs_ge_minus_self [of ?y] by linarith+
  have "\<lceil>?y\<rceil> \<le> 2 * K" using y(1) by (simp only: ceiling_le_iff less_imp_le)
  with rhe_le_ceiling [of ?y] have mu: "m \<le> 2 * K" unfolding m_def by (rule order_trans)
  have "- (2 * K) \<le> \<lfloor>?y\<rfloor>" using y(2) by (simp only: le_floor_iff less_imp_le)
  then have ml: "- (2 * K) \<le> m" unfolding m_def using rhe_floor_le [of ?y] by (rule order_trans)
  have big: "K \<le> \<bar>m\<bar>" if "?e \<noteq> - 1074"
  proof -
    have "2 powi (?e + 52) \<le> \<bar>x\<bar>" using that f64_exp_bounds(2) [of x] by simp
    then have "of_int K * ?p \<le> \<bar>x\<bar>" by (simp add: K_def power_int_add mult.commute)
    then have "of_int K \<le> \<bar>x\<bar> / ?p" by (simp add: pos_le_divide_eq)
    then have ay: "of_int K \<le> \<bar>?y\<bar>" by simp
    show ?thesis
    proof (cases "0 \<le> ?y")
      case True
      then have "of_int K \<le> ?y" using ay by simp
      then have "K \<le> \<lfloor>?y\<rfloor>" by (simp only: le_floor_iff)
      then have "K \<le> m" unfolding m_def using rhe_floor_le [of ?y] by (rule order_trans)
      then show ?thesis by simp
    next
      case False
      then have "?y \<le> of_int (- K)" using ay by simp
      then have "\<lceil>?y\<rceil> \<le> - K" by (simp only: ceiling_le_iff)
      with rhe_le_ceiling [of ?y] have "m \<le> - K" unfolding m_def by (rule order_trans)
      then show ?thesis by simp
    qed
  qed
  have K0: "0 < K" by (simp add: K_def)
  have e971: "?e \<le> 971"
  proof (rule ccontr)
    assume "\<not> ?e \<le> 971"
    then have e: "972 \<le> ?e" by simp
    then have "K \<le> \<bar>m\<bar>" using big by simp
    then have "real_of_int K \<le> \<bar>of_int m\<bar>" by (metis of_int_abs of_int_le_iff)
    moreover have "(2::real) powi 972 \<le> ?p" using e by (intro power_int_increasing) simp_all
    ultimately have "of_int K * 2 powi 972 \<le> \<bar>of_int m\<bar> * ?p"
      using K0 by (intro mult_mono) simp_all
    moreover have "real_of_int K * 2 powi 972 = 2 ^ 1024"
      by (simp add: K_def)
    ultimately have "2 ^ 1024 \<le> \<bar>f64_round x\<bar>" by (simp only: r abs_mult) simp
    with assms show False by simp
  qed
  show ?thesis
  proof (cases "\<bar>m\<bar> < 2 * K")
    case True
    then have "\<bar>m\<bar> < 2 ^ 53" by (simp only: K2)
    then show ?thesis
      using f64_exp_ge [of x] e971 r by (rule is_f64_I)
  next
    case False
    then have "m = 2 * K \<or> m = 2 * (- K)" using mu ml by (auto simp: abs_if split: if_splits)
    then obtain h where h: "m = 2 * h" "\<bar>h\<bar> = K"
      using K0 by (elim disjE) (auto intro: that [of K] that [of "- K"])
    have e970: "?e \<le> 970"
    proof (rule ccontr)
      assume "\<not> ?e \<le> 970"
      then have "?e = 971" using e971 by simp
      then have "\<bar>f64_round x\<bar> = \<bar>real_of_int m\<bar> * 2 powi 971" by (simp add: r abs_mult)
      also have "\<bar>real_of_int m\<bar> = 2 * of_int K" using h K0 
        by (metis abs_mult abs_numeral of_int_abs of_int_mult of_int_numeral)
      also have "2 * real_of_int K * 2 powi 971 = 2 ^ 1024" by (simp add: K_def)
      finally show False using assms by simp
    qed
    have "\<bar>h\<bar> < 2 ^ 53" using h(2) by (simp add: K_def)
    then show ?thesis
    proof (rule is_f64_I)
      show "f64_round x = real_of_int h * 2 powi (?e + 1)"
        by (simp add: r h(1) power_int_add)
      show "- 1074 \<le> ?e + 1" using f64_exp_ge [of x] by simp
      show "?e + 1 \<le> 971" using e970 by simp
    qed
  qed
qed

lemma is_f64_val [simp]: "is_f64 (val y)"
  using val [of y] by simp

lemma val_F: "\<bar>f64_round x\<bar> < 2 ^ 1024 \<Longrightarrow> val (F x) = f64_round x"
  by (simp add: F_def Abs_f64_inverse is_f64_f64_round del: power_numeral)

lemma val_F_id: "is_f64 x \<Longrightarrow> val (F x) = x"
  using is_f64_bound [of x] by (simp add: val_F f64_round_id del: power_numeral)

section \<open>Sums of integer-valued doubles are exact\<close>

lemma abs_sum_simps [simp]:
  "abs_sum [] = 0" "abs_sum (v # vs) = \<bar>v\<bar> + abs_sum vs" "abs_sum (us @ vs) = abs_sum us + abs_sum vs"
  by (simp_all add: abs_sum_def)

lemma abs_sum_nonneg: "0 \<le> abs_sum vs"
  by (auto simp: abs_sum_def intro!: sum_list_nonneg)

lemma abs_sum_list: "\<bar>sum_list vs\<bar> \<le> abs_sum vs"
  unfolding abs_sum_def by (rule sum_list_abs)

lemma abs_sum_take_drop: "abs_sum (take n vs) + abs_sum (drop n vs) = abs_sum vs"
  using abs_sum_simps(3) [of "take n vs" "drop n vs"] by simp

lemma sum_list_Ints: "(\<forall>v\<in>set vs. v \<in> \<int>) \<Longrightarrow> sum_list vs \<in> \<int>"
  by (induction vs) auto

lemma fl_int_exact:
  assumes "x \<in> \<int>" and "\<bar>x\<bar> \<le> 2 ^ 53"
  shows "fl x = Num x"
proof -
  obtain i where i: "x = of_int i" using assms(1) by (auto elim: Ints_cases)
  have "real_of_int \<bar>i\<bar> \<le> real_of_int (2 ^ 53)" using assms(2) by (simp add: i)
  then have "\<bar>i\<bar> \<le> 2 ^ 53" by (simp only: of_int_le_iff)
  then show ?thesis unfolding i by (intro fl_id is_f64_of_int)
qed

lemma fadd_exact:
  assumes "a \<in> \<int>" and "b \<in> \<int>" and "\<bar>a\<bar> + \<bar>b\<bar> \<le> 2 ^ 53"
  shows "fadd (Num a) (Num b) = Num (a + b)"
proof -
  have "\<bar>a + b\<bar> \<le> 2 ^ 53" using assms(3) abs_triangle_ineq [of a b] by linarith
  then show ?thesis using assms(1,2) by (simp add: fl_int_exact del: power_numeral)
qed

lemma foldl_exact:
  assumes "acc \<in> \<int>" and "\<forall>v\<in>set vs. v \<in> \<int>" and "\<bar>acc\<bar> + abs_sum vs \<le> 2 ^ 53"
  shows "foldl fadd (Num acc) (map Num vs) = Num (acc + sum_list vs)"
  using assms
proof (induction vs arbitrary: acc)
  case Nil
  then show ?case by simp
next
  case (Cons v vs)
  have b: "\<bar>acc\<bar> + \<bar>v\<bar> \<le> 2 ^ 53"
    using Cons.prems(3) abs_sum_nonneg [of vs] by simp
  have step: "fadd (Num acc) (Num v) = Num (acc + v)"
    using Cons.prems(1,2) b by (intro fadd_exact) simp_all
  have "\<bar>acc + v\<bar> + abs_sum vs \<le> 2 ^ 53"
    using Cons.prems(3) abs_triangle_ineq [of acc v] by simp
  then have "foldl fadd (Num (acc + v)) (map Num vs) = Num (acc + v + sum_list vs)"
    using Cons.prems(1,2) by (intro Cons.IH) simp_all
  then show ?case by (simp add: step add.assoc del: fadd.simps)
qed

declare lanes_loop.simps [simp del] pairwise_sum.simps [simp del]

lemma elem_le_abs_sum: "v \<in> set vs \<Longrightarrow> \<bar>v\<bar> \<le> abs_sum vs"
  by (induction vs) (auto simp: abs_sum_nonneg intro: order_trans add_increasing2)

lemma sum_list_zip_add:
  fixes xs ys :: "real list"
  shows "length xs = length ys
    \<Longrightarrow> sum_list (map (\<lambda>(x, y). x + y) (zip xs ys)) = sum_list xs + sum_list ys"
  by (induction xs ys rule: list_induct2) simp_all

lemma abs_sum_zip_add:
  "length xs = length ys
    \<Longrightarrow> abs_sum (map (\<lambda>(x, y). x + y) (zip xs ys)) \<le> abs_sum xs + abs_sum ys"
proof (induction xs ys rule: list_induct2)
  case Nil
  then show ?case by simp
next
  case (Cons x xs y ys)
  then show ?case using abs_triangle_ineq [of x y] by simp
qed

lemma zip_fadd_exact:
  assumes "\<forall>v\<in>set xs. v \<in> \<int>" and "\<forall>v\<in>set ys. v \<in> \<int>" and "abs_sum xs + abs_sum ys \<le> 2 ^ 53"
  shows "map (\<lambda>(x, y). fadd x y) (zip (map Num xs) (map Num ys))
         = map Num (map (\<lambda>(x, y). x + y) (zip xs ys))"
proof -
  have "fadd (Num x) (Num y) = Num (x + y)" if "(x, y) \<in> set (zip xs ys)" for x y
  proof (rule fadd_exact)
    have x: "x \<in> set xs" and y: "y \<in> set ys" using that by (auto dest: set_zip_leftD set_zip_rightD)
    show "x \<in> \<int>" "y \<in> \<int>" using x y assms(1,2) by auto
    show "\<bar>x\<bar> + \<bar>y\<bar> \<le> 2 ^ 53"
      using elem_le_abs_sum [OF x] elem_le_abs_sum [OF y] assms(3) by linarith
  qed
  then show ?thesis by (auto simp: zip_map_map simp del: fadd.simps)
qed

lemma lanes_exact:
  assumes "length rs = 8" and "8 dvd length as"
    and "\<forall>v\<in>set rs. v \<in> \<int>" and "\<forall>v\<in>set as. v \<in> \<int>"
    and "abs_sum rs + abs_sum as \<le> 2 ^ 53"
  shows "\<exists>rs'. lanes_loop (map Num rs) (map Num as) = map Num rs' \<and> length rs' = 8 \<and>
           (\<forall>v\<in>set rs'. v \<in> \<int>) \<and> sum_list rs' = sum_list rs + sum_list as \<and>
           abs_sum rs' \<le> abs_sum rs + abs_sum as"
  using assms
proof (induction "length as" arbitrary: rs as rule: less_induct)
  case less
  show ?case
  proof (cases "length as < 8")
    case True
    then have "as = []" using less.prems(2) by (auto elim: dvdE)
    then show ?thesis
      using less.prems(1,3) by (intro exI [of _ rs]) (simp add: lanes_loop.simps [of _ "[]"])
  next
    case False
    let ?c = "take 8 as" and ?rest = "drop 8 as"
    let ?rs1 = "map (\<lambda>(x, y). x + y) (zip rs ?c)"
    have lc: "length ?c = 8" using False by simp
    have split: "abs_sum ?c + abs_sum ?rest = abs_sum as" by (rule abs_sum_take_drop)
    have ints_c: "\<forall>v\<in>set ?c. v \<in> \<int>" and ints_rest: "\<forall>v\<in>set ?rest. v \<in> \<int>"
      using less.prems(4) by (auto dest: in_set_takeD in_set_dropD)
    have bc: "abs_sum rs + abs_sum ?c \<le> 2 ^ 53"
      using less.prems(5) split abs_sum_nonneg [of ?rest] by linarith
    have step: "lanes_loop (map Num rs) (map Num as) = lanes_loop (map Num ?rs1) (map Num ?rest)"
      using False zip_fadd_exact [OF less.prems(3) ints_c bc]
      by (subst lanes_loop.simps) (simp add: take_map drop_map del: fadd.simps)
    have l1: "length ?rs1 = 8" using less.prems(1) lc by simp
    have i1: "\<forall>v\<in>set ?rs1. v \<in> \<int>"
    proof
      fix v assume "v \<in> set ?rs1"
      then obtain x y where "(x, y) \<in> set (zip rs ?c)" and v: "v = x + y" by auto
      then have "x \<in> set rs" "y \<in> set ?c" by (auto dest: set_zip_leftD set_zip_rightD)
      then show "v \<in> \<int>" using less.prems(3) ints_c unfolding v by (intro Ints_add) auto
    qed
    have a1: "abs_sum ?rs1 \<le> abs_sum rs + abs_sum ?c"
      using less.prems(1) lc by (intro abs_sum_zip_add) simp
    have s1: "sum_list ?rs1 = sum_list rs + sum_list ?c"
      using less.prems(1) lc by (intro sum_list_zip_add) simp
    have dvd: "8 dvd length ?rest" using less.prems(2) False by (simp add: dvd_diff_nat)
    have b1: "abs_sum ?rs1 + abs_sum ?rest \<le> 2 ^ 53"
      using a1 split less.prems(5) by linarith
    have "length ?rest < length as" using False by simp
    from less.hyps [OF this l1 dvd i1 ints_rest b1]
    obtain rs' where rs': "lanes_loop (map Num ?rs1) (map Num ?rest) = map Num rs'"
      "length rs' = 8" "\<forall>v\<in>set rs'. v \<in> \<int>"
      "sum_list rs' = sum_list ?rs1 + sum_list ?rest"
      "abs_sum rs' \<le> abs_sum ?rs1 + abs_sum ?rest"
      by blast
    have "sum_list ?c + sum_list ?rest = sum_list as"
      using sum_list_append [of ?c ?rest] by simp
    then have "sum_list rs' = sum_list rs + sum_list as" using rs'(4) s1 by linarith
    moreover have "abs_sum rs' \<le> abs_sum rs + abs_sum as" using rs'(5) a1 split by linarith
    ultimately show ?thesis using rs'(1,2,3) step by (intro exI [of _ rs']) simp
  qed
qed

lemma list8:
  assumes "length xs = 8"
  obtains a b c d e f g h where "xs = [a, b, c, d, e, f, g, h]"
proof -
  have "length xs = Suc (Suc (Suc (Suc (Suc (Suc (Suc (Suc 0)))))))" using assms by simp
  then show ?thesis using that by (auto simp: length_Suc_conv)
qed

lemma tree_exact:
  assumes "length rs = 8" and "\<forall>v\<in>set rs. v \<in> \<int>" and "abs_sum rs \<le> 2 ^ 53"
  shows "fadd (fadd (fadd (map Num rs ! 0) (map Num rs ! 1)) (fadd (map Num rs ! 2) (map Num rs ! 3)))
              (fadd (fadd (map Num rs ! 4) (map Num rs ! 5)) (fadd (map Num rs ! 6) (map Num rs ! 7)))
         = Num (sum_list rs)"
proof -
  obtain a b c d e f g h where rs: "rs = [a, b, c, d, e, f, g, h]"
    using assms(1) by (rule list8)
  have ints: "a \<in> \<int>" "b \<in> \<int>" "c \<in> \<int>" "d \<in> \<int>" "e \<in> \<int>" "f \<in> \<int>" "g \<in> \<int>" "h \<in> \<int>"
    using assms(2) by (simp_all add: rs)
  define B :: real where "B = 2 ^ 53"
  define a' b' c' d' e' f' g' h' where abs_defs:
    "a' = \<bar>a\<bar>" "b' = \<bar>b\<bar>" "c' = \<bar>c\<bar>" "d' = \<bar>d\<bar>" "e' = \<bar>e\<bar>" "f' = \<bar>f\<bar>" "g' = \<bar>g\<bar>" "h' = \<bar>h\<bar>"
  have nn: "0 \<le> a'" "0 \<le> b'" "0 \<le> c'" "0 \<le> d'" "0 \<le> e'" "0 \<le> f'" "0 \<le> g'" "0 \<le> h'"
    by (simp_all add: abs_defs)
  have tot: "a' + b' + c' + d' + e' + f' + g' + h' \<le> B"
    using assms(3) by (simp add: rs abs_defs B_def)
  have add2: "fadd (Num x) (Num y) = Num (x + y)" if "x \<in> \<int>" "y \<in> \<int>" "\<bar>x\<bar> + \<bar>y\<bar> \<le> B" for x y
    using that unfolding B_def by (rule fadd_exact)
  define ab cd ef gh where pair_defs: "ab = \<bar>a + b\<bar>" "cd = \<bar>c + d\<bar>" "ef = \<bar>e + f\<bar>" "gh = \<bar>g + h\<bar>"
  have pairs: "ab \<le> a' + b'" "cd \<le> c' + d'" "ef \<le> e' + f'" "gh \<le> g' + h'"
    unfolding pair_defs abs_defs by (rule abs_triangle_ineq)+
  define abcd efgh where quad_defs: "abcd = \<bar>a + b + (c + d)\<bar>" "efgh = \<bar>e + f + (g + h)\<bar>"
  have quads: "abcd \<le> ab + cd" "efgh \<le> ef + gh"
    unfolding quad_defs pair_defs by (rule abs_triangle_ineq)+
  have 1: "fadd (Num a) (Num b) = Num (a + b)"
    by (rule add2) (use ints nn tot in \<open>simp_all add: abs_defs [symmetric]\<close>)
  have 2: "fadd (Num c) (Num d) = Num (c + d)"
    by (rule add2) (use ints nn tot in \<open>simp_all add: abs_defs [symmetric]\<close>)
  have 3: "fadd (Num e) (Num f) = Num (e + f)"
    by (rule add2) (use ints nn tot in \<open>simp_all add: abs_defs [symmetric]\<close>)
  have 4: "fadd (Num g) (Num h) = Num (g + h)"
    by (rule add2) (use ints nn tot in \<open>simp_all add: abs_defs [symmetric]\<close>)
  have 5: "fadd (Num (a + b)) (Num (c + d)) = Num (a + b + (c + d))"
    by (rule add2) (use ints nn tot pairs in \<open>simp_all add: pair_defs [symmetric]\<close>)
  have 6: "fadd (Num (e + f)) (Num (g + h)) = Num (e + f + (g + h))"
    by (rule add2) (use ints nn tot pairs in \<open>simp_all add: pair_defs [symmetric]\<close>)
  have 7: "fadd (Num (a + b + (c + d))) (Num (e + f + (g + h))) = Num (a + b + (c + d) + (e + f + (g + h)))"
    by (rule add2) (use ints nn tot pairs quads in \<open>simp_all add: quad_defs [symmetric]\<close>)
  show ?thesis
    by (simp only: rs list.map nth_Cons_0 nth_Cons_numeral numeral_eq_Suc pred_numeral_simps nth_Cons_Suc 
        One_nat_def arith_simps 1 2 3 4 5 6 7) (simp)
qed

lemma block_exact:
  assumes "8 \<le> length vs" and "\<forall>v\<in>set vs. v \<in> \<int>" and "abs_sum vs \<le> 2 ^ 53"
  shows "block_sum (map Num vs) = Num (sum_list vs)"
proof -
  define m where "m = length vs - length vs mod 8"
  let ?h = "take 8 vs" and ?mid = "take (m - 8) (drop 8 vs)" and ?tail = "drop m vs"
  have m8: "8 \<le> m" "m \<le> length vs" "8 dvd m"
    using assms(1) unfolding m_def by (simp_all add: dvd_minus_mod) presburger
  have front: "take m vs = ?h @ ?mid"
    using m8(1) by (metis le_add_diff_inverse take_add)
  have parts: "vs = ?h @ ?mid @ ?tail"
    using append_take_drop_id [of m vs] front by simp
  have sums: "sum_list vs = sum_list ?h + sum_list ?mid + sum_list ?tail"
    by (subst parts) (simp only: sum_list_append add.assoc)
  have abss: "abs_sum vs = abs_sum ?h + abs_sum ?mid + abs_sum ?tail"
    by (subst parts) (simp only: abs_sum_simps add.assoc)
  have ints: "\<forall>v\<in>set ?h. v \<in> \<int>" "\<forall>v\<in>set ?mid. v \<in> \<int>" "\<forall>v\<in>set ?tail. v \<in> \<int>"
    using assms(2) by (auto dest!: in_set_takeD in_set_dropD)
  have lh: "length ?h = 8" using assms(1) by simp
  have lmid: "length ?mid = m - 8" using m8 by simp
  have dvd: "8 dvd length ?mid" using m8 by (simp only: lmid) (simp add: dvd_diff_nat)
  have b: "abs_sum ?h + abs_sum ?mid \<le> 2 ^ 53"
    using assms(3) abss abs_sum_nonneg [of ?tail] by linarith
  from lanes_exact [OF lh dvd ints(1,2) b]
  obtain rs where rs: "lanes_loop (map Num ?h) (map Num ?mid) = map Num rs" "length rs = 8"
    "\<forall>v\<in>set rs. v \<in> \<int>" "sum_list rs = sum_list ?h + sum_list ?mid"
    "abs_sum rs \<le> abs_sum ?h + abs_sum ?mid"
    by blast
  have tree: "fadd (fadd (fadd (map Num rs ! 0) (map Num rs ! 1)) (fadd (map Num rs ! 2) (map Num rs ! 3)))
              (fadd (fadd (map Num rs ! 4) (map Num rs ! 5)) (fadd (map Num rs ! 6) (map Num rs ! 7)))
         = Num (sum_list rs)"
    using rs(2,3) rs(5) b by (intro tree_exact) linarith+
  have "\<bar>sum_list rs\<bar> + abs_sum ?tail \<le> 2 ^ 53"
    using abs_sum_list [of rs] rs(5) abss assms(3) by linarith
  then have tail: "foldl fadd (Num (sum_list rs)) (map Num ?tail) = Num (sum_list rs + sum_list ?tail)"
    using sum_list_Ints [OF rs(3)] ints(3) by (intro foldl_exact) simp_all
  have "block_sum (map Num vs) = foldl fadd (Num (sum_list rs)) (map Num ?tail)"
    unfolding block_sum_def Let_def length_map m_def [symmetric]
    by (simp only: take_map drop_map rs(1) tree)
  then show ?thesis using tail rs(4) sums by simp
qed

lemma pairwise_exact:
  assumes "\<forall>v\<in>set vs. v \<in> \<int>" and "abs_sum vs \<le> 2 ^ 53"
  shows "pairwise_sum (map Num vs) = Num (sum_list vs)"
  using assms
proof (induction "length vs" arbitrary: vs rule: less_induct)
  case less
  consider "length vs < 8" | "8 \<le> length vs" "length vs \<le> 128" | "128 < length vs" by linarith
  then show ?case
  proof cases
    case 1
    then have "pairwise_sum (map Num vs) = foldl fadd (Num 0) (map Num vs)"
      by (subst pairwise_sum.simps) simp
    also have "\<dots> = Num (0 + sum_list vs)"
      using less.prems by (intro foldl_exact) simp_all
    finally show ?thesis by simp
  next
    case 2
    then have "pairwise_sum (map Num vs) = block_sum (map Num vs)"
      by (subst pairwise_sum.simps) simp
    then show ?thesis using 2(1) less.prems by (simp only: block_exact)
  next
    case 3
    define n2 where "n2 = length vs div 2 - length vs div 2 mod 8"
    have "length vs div 2 mod 8 < 8" by simp
    moreover have "64 \<le> length vs div 2" using 3 by simp
    ultimately have n2: "0 < n2" "n2 < length vs" unfolding n2_def by linarith+
    let ?l = "take n2 vs" and ?r = "drop n2 vs"
    have split: "abs_sum ?l + abs_sum ?r = abs_sum vs" by (rule abs_sum_take_drop)
    have ints: "\<forall>v\<in>set ?l. v \<in> \<int>" "\<forall>v\<in>set ?r. v \<in> \<int>"
      using less.prems(1) by (auto dest!: in_set_takeD in_set_dropD)
    have bl: "abs_sum ?l \<le> 2 ^ 53" and br: "abs_sum ?r \<le> 2 ^ 53"
      using split less.prems(2) abs_sum_nonneg [of ?l] abs_sum_nonneg [of ?r] by linarith+
    have l: "pairwise_sum (map Num ?l) = Num (sum_list ?l)"
      using n2 by (intro less.hyps ints bl) simp
    have r: "pairwise_sum (map Num ?r) = Num (sum_list ?r)"
      using n2 by (intro less.hyps ints br) simp
    have "pairwise_sum (map Num vs) = fadd (pairwise_sum (map Num ?l)) (pairwise_sum (map Num ?r))"
      using 3 by (subst pairwise_sum.simps) (simp add: Let_def n2_def take_map drop_map)
    also have "\<dots> = Num (sum_list ?l + sum_list ?r)"
      unfolding l r
      using abs_sum_list [of ?l] abs_sum_list [of ?r] split less.prems(2)
        sum_list_Ints [OF ints(1)] sum_list_Ints [OF ints(2)]
      by (intro fadd_exact) linarith+
    also have "sum_list ?l + sum_list ?r = sum_list vs"
      using sum_list_append [of ?l ?r] by simp
    finally show ?thesis .
  qed
qed

lemma pairwise_sum_small: "length a < 8 \<Longrightarrow> pairwise_sum a = foldl fadd (Num 0) a"
  by (subst pairwise_sum.simps) simp

lemma np_mean_Nil [simp]: "np_mean [] = NaN"
  by (simp add: np_mean_def pairwise_sum_small)

lemma np_mean_single [simp]: "np_mean [y] = Num (val y)"
  by (simp add: np_mean_def pairwise_sum_small fl_id)

lemma np_mean_exact:
  assumes "ys \<noteq> []" and "\<forall>y\<in>set ys. val y \<in> \<int>" and "abs_sum (map val ys) \<le> 2 ^ 53"
  shows "np_mean ys = fl (sum_list (map val ys) / real (length ys))"
proof -
  have "pairwise_sum (map Num (map val ys)) = Num (sum_list (map val ys))"
    using assms(2,3) by (intro pairwise_exact) auto
  then show ?thesis using assms(1) by (simp add: np_mean_def o_def)
qed

section \<open>The loops fill their arrays in order\<close>

lemma euc_same_length: "length u = length v \<Longrightarrow> euc u v = Inr (euclid u v)"
  by (simp add: euc_def broadcast_sub_def norm2_def euclid_def o_def split_def)

lemma fill_step:
  assumes "i < length ds"
  shows "take (Suc i) (ds[i := d]) @ vs @ drop (Suc i + m) (ds[i := d])
         = take i ds @ (d # vs) @ drop (i + Suc m) ds"
  using assms by (simp add: take_Suc_conv_app_nth)

lemma get_distances_loop_fill:
  assumes "\<forall>p\<in>set rows. length p = length x" and "i + length rows \<le> length ds"
  shows "get_distances_loop x (enumerate i rows) ds
         = Inr (take i ds @ map (euclid x) rows @ drop (i + length rows) ds)"
  using assms
proof (induction rows arbitrary: i ds)
  case Nil
  then show ?case by simp
next
  case (Cons p rows)
  have lt: "i < length ds" using Cons.prems(2) by simp
  have e: "euc x p = Inr (euclid x p)" using Cons.prems(1) by (simp add: euc_same_length)
  have "get_distances_loop x (enumerate i (p # rows)) ds
        = get_distances_loop x (enumerate (Suc i) rows) (ds[i := euclid x p])"
    by (simp add: e)
  also have "\<dots> = Inr (take (Suc i) (ds[i := euclid x p]) @ map (euclid x) rows
                      @ drop (Suc i + length rows) (ds[i := euclid x p]))"
    using Cons.prems by (intro Cons.IH) simp_all
  also have "\<dots> = Inr (take i ds @ map (euclid x) (p # rows) @ drop (i + length (p # rows)) ds)"
    using fill_step [OF lt] by simp
  finally show ?case .
qed

lemma get_distances_fitted:
  assumes "X_train self = Some X" and "\<forall>p\<in>set X. length p = length q"
  shows "get_distances self q = Inr (map (euclid q) X)"
  using get_distances_loop_fill [of X q 0 "replicate (length X) 0"] assms
  by (simp add: get_distances_def)

lemma predict_loop_collect:
  assumes "i + length qs \<le> length ps"
  shows "predict_loop A self (enumerate i qs) k ps
         = (case collect (map (predict_one A self k) qs) of
              Inl e \<Rightarrow> Inl e
            | Inr vs \<Rightarrow> Inr (take i ps @ vs @ drop (i + length vs) ps))"
  using assms
proof (induction qs arbitrary: i ps)
  case Nil
  then show ?case by simp
next
  case (Cons q qs)
  have lt: "i < length ps" using Cons.prems by simp
  show ?case
  proof (cases "predict_one A self k q")
    case (Inl e)
    then show ?thesis by (auto simp: predict_one_def split: sum.splits)
  next
    case (Inr v)
    have "predict_loop A self (enumerate i (q # qs)) k ps
          = predict_loop A self (enumerate (Suc i) qs) k (ps[i := v])"
      using Inr by (auto simp: predict_one_def split: sum.splits)
    also have "\<dots> = (case collect (map (predict_one A self k) qs) of
              Inl e \<Rightarrow> Inl e
            | Inr vs \<Rightarrow> Inr (take (Suc i) (ps[i := v]) @ vs @ drop (Suc i + length vs) (ps[i := v])))"
      using Cons.prems by (intro Cons.IH) simp
    also have "\<dots> = (case collect (map (predict_one A self k) (q # qs)) of
              Inl e \<Rightarrow> Inl e
            | Inr vs \<Rightarrow> Inr (take i ps @ vs @ drop (i + length vs) ps))"
      using Inr fill_step [OF lt] by (simp split: sum.splits)
    finally show ?thesis .
  qed
qed

lemma collect_length: "collect rs = Inr vs \<Longrightarrow> length vs = length rs"
  by (induction rs arbitrary: vs) (auto split: sum.splits)

lemma predict_collect:
  "snd (predict A self qs k) = collect (map (predict_one A self k) qs)"
proof -
  have "snd (predict A self qs k)
        = (case collect (map (predict_one A self k) qs) of
              Inl e \<Rightarrow> Inl e
            | Inr vs \<Rightarrow> Inr (take 0 (replicate (length qs) (Num 0)) @ vs
                              @ drop (0 + length vs) (replicate (length qs) (Num 0))))"
    unfolding predict_def snd_conv by (rule predict_loop_collect) simp
  then show ?thesis
    by (auto split: sum.splits dest: collect_length)
qed

lemma collect_all_Inr: "collect (map (\<lambda>q. Inr (f q)) qs) = Inr (map f qs)"
  by (induction qs) simp_all

section \<open>What the promise of argsort gives\<close>

lemma stable_argsort_ok: "argsort_ok stable_argsort"
  by (simp add: argsort_ok_def stable_argsort_def sorted_sort_key [where f = "\<lambda>i. ds ! i" for ds])

lemma argsort_length: "argsort_ok A \<Longrightarrow> length (A ds) = length ds"
  using mset_eq_length [of "A ds" "[0..<length ds]"] by (simp add: argsort_ok_def)

lemma argsort_set: "argsort_ok A \<Longrightarrow> set (A ds) = {0..<length ds}"
  using mset_eq_setD [of "A ds" "[0..<length ds]"] by (simp add: argsort_ok_def)

lemma argsort_distinct: "argsort_ok A \<Longrightarrow> distinct (A ds)"
  using mset_eq_imp_distinct_iff [of "A ds" "[0..<length ds]"] by (simp add: argsort_ok_def)

lemma argsort_sorted: "argsort_ok A \<Longrightarrow> sorted (map (\<lambda>i. ds ! i) (A ds))"
  by (simp add: argsort_ok_def)

lemma argsort_values: 
  assumes "argsort_ok A" shows "mset (map (\<lambda>i. ds ! i) (A ds)) = mset ds"
proof -
  have "mset (map (\<lambda>i. ds ! i) (A ds)) = image_mset (\<lambda>i. ds ! i) (mset [0..<length ds])"
    using assms by (simp add: argsort_ok_def del: mset_upt)
  also have "\<dots> = mset (map (\<lambda>i. ds ! i) [0..<length ds])" by simp
  also have "\<dots> = mset ds" by (simp add: map_nth)
  finally show ?thesis .
qed


lemma argsort_targets:
  assumes "argsort_ok A" and "length ys = length ds"
  shows "mset (map (\<lambda>i. ys ! i) (A ds)) = mset ys"
proof -
  have "mset (map (\<lambda>i. ys ! i) (A ds)) = image_mset (\<lambda>i. ys ! i) (mset [0..<length ds])"
    using assms(1) by (simp add: argsort_ok_def del: mset_upt)
  also have "\<dots> = mset (map (\<lambda>i. ys ! i) [0..<length ys])" using assms(2) by simp
  also have "\<dots> = mset ys" by (simp add: map_nth)
  finally show ?thesis .
qed

section \<open>Predicting on a fitted instance\<close>

lemma fit_attributes:
  assumes "fit s0 X ys = Inr self"
  shows "X_train self = Some X" and "y_train self = Some ys"
  using assms by (auto simp: fit_def)

lemma slice_to_subset: "set (slice_to xs k) \<subseteq> set xs"
  by (auto simp: slice_to_def dest: in_set_takeD)

lemma predict_one_fitted:
  assumes ok: "argsort_ok A" and fitted: "fit s0 X ys = Inr self"
    and len: "length X = length ys" and dims: "\<forall>p\<in>set X. length p = length q"
  shows "predict_one A self k q
         = Inr (np_mean (map (\<lambda>i. ys ! i) (slice_to (A (map (euclid q) X)) k)))"
proof -
  let ?ds = "map (euclid q) X"
  have d: "get_distances self q = Inr ?ds"
    using fit_attributes(1) [OF fitted] dims by (rule get_distances_fitted)
  have "set (slice_to (A ?ds) k) \<subseteq> {0..<length ys}"
    using slice_to_subset [of "A ?ds" k] argsort_set [OF ok, of ?ds] len by simp
  then have "list_all (\<lambda>i. i < length ys) (slice_to (A ?ds) k)"
    by (auto simp: list_all_iff)
  then show ?thesis
    using d fit_attributes(2) [OF fitted]
    by (simp add: predict_one_def get_predicted_value_def get_k_nearest_def fancy_index_def)
qed

lemma predict_fitted:
  assumes ok: "argsort_ok A" and fitted: "fit s0 X ys = Inr self"
    and len: "length X = length ys" and dims: "\<forall>p\<in>set X. length p = d"
    and qdims: "\<forall>q\<in>set qs. length q = d"
  shows "snd (predict A self qs k)
         = Inr (map (\<lambda>q. np_mean (map (\<lambda>i. ys ! i) (slice_to (A (map (euclid q) X)) k))) qs)"
proof -
  have "map (predict_one A self k) qs
        = map (\<lambda>q. Inr (np_mean (map (\<lambda>i. ys ! i) (slice_to (A (map (euclid q) X)) k)))) qs"
    using dims qdims by (intro map_cong refl predict_one_fitted [OF ok fitted len]) simp
  then have "collect (map (predict_one A self k) qs)
        = Inr (map (\<lambda>q. np_mean (map (\<lambda>i. ys ! i) (slice_to (A (map (euclid q) X)) k))) qs)"
    by (simp only: collect_all_Inr)
  then show ?thesis
    by (simp only: predict_collect)
qed

section \<open>The nearest index\<close>

lemma slice_to_all: "int (length xs) \<le> k \<Longrightarrow> slice_to xs k = xs"
  by (simp add: slice_to_def)



section \<open>Evaluation, distances and batches\<close>

lemma fl_0 [simp]: "fl 0 = Num 0"
  by (simp add: fl_id)

lemma fl_numeral: "(numeral n :: real) \<le> 2 ^ 53 \<Longrightarrow> fl (numeral n) = Num (numeral n)"
  by (rule fl_int_exact) simp_all

lemma val_F_0 [simp]: "val (F 0) = 0"
  by (simp add: val_F_id)

lemma val_F_numeral: "(numeral n :: real) \<le> 2 ^ 53 \<Longrightarrow> val (F (numeral n)) = numeral n"
proof -
  assume "(numeral n :: real) \<le> 2 ^ 53"
  then have "fl (numeral n) = Num (numeral n)" by (rule fl_numeral)
  have "is_f64 (of_int (numeral n))"
  proof (rule is_f64_of_int)
    have "real_of_int \<bar>numeral n\<bar> \<le> real_of_int (2 ^ 53)"
      using \<open>(numeral n :: real) \<le> 2 ^ 53\<close> by simp
    then show "\<bar>numeral n :: int\<bar> \<le> 2 ^ 53" by (simp only: of_int_le_iff)
  qed
  then show ?thesis using val_F_id [of "numeral n"] by simp
qed

lemmas run_defs =
  predict_def get_distances_def enumerate_eq_zip euc_def broadcast_sub_def norm2_def upt_rec
  get_k_nearest_def slice_to_def get_predicted_value_def fancy_index_def
  np_mean_def pairwise_sum_small fl_numeral val_F_numeral
  stable_argsort_def example_model_def KNN_init_def fit_def

lemma example_fit:
  "fit KNN_init [[0, 0], [10, 0], [0, 10]] [F 10, F 20, F 30] = Inr example_model"
  by (simp add: fit_def KNN_init_def example_model_def)



lemma predict_single:
  "snd (predict A self [q] k)
   = (case predict_one A self k q of Inl e \<Rightarrow> Inl e | Inr v \<Rightarrow> Inr [v])"
  by (simp add: predict_collect split: sum.splits)

lemma predict_concat_results:
  "snd (predict A self qs k) = concat_results (map (\<lambda>q. snd (predict A self [q] k)) qs)"
proof -
  have "collect (map f qs)
        = concat_results (map (\<lambda>q. case f q of Inl e \<Rightarrow> Inl e | Inr v \<Rightarrow> Inr [v]) qs)"
    for f :: "real list \<Rightarrow> error + npfloat"
    by (induction qs) (simp_all split: sum.splits)
  then show ?thesis
    unfolding predict_single by (simp only: predict_collect)
qed

section \<open>Without ties the order is the stable one\<close>

lemma sorted_values_unique:
  assumes "argsort_ok A"
  shows "map (\<lambda>i. ds ! i) (A ds) = sort ds"
proof -
  have "sort ds = map (\<lambda>i. ds ! i) (A ds)"
    using argsort_values [OF assms, of ds] argsort_sorted [OF assms, of ds]
    by (intro properties_for_sort) simp_all
  then show ?thesis by simp
qed

lemma filter_eq_distinct: "distinct xs \<Longrightarrow> k \<in> set xs \<Longrightarrow> filter (\<lambda>x. k = x) xs = [k]"
  by (induction xs) (auto simp: filter_empty_conv)

lemma argsort_no_ties:
  assumes ok: "argsort_ok A" and d: "distinct ds"
  shows "A ds = stable_argsort ds"
proof -
  let ?f = "\<lambda>i. ds ! i"
  have inj: "i = j" if "i < length ds" "j < length ds" "ds ! i = ds ! j" for i j
    using that d by (simp add: nth_eq_iff_index_eq)
  have "sort_key ?f [0..<length ds] = A ds"
  proof (rule properties_for_sort_key)
    show "mset (A ds) = mset [0..<length ds]" using ok by (simp add: argsort_ok_def)
    show "sorted (map ?f (A ds))" by (rule argsort_sorted [OF ok])
    fix k assume k: "k \<in> set (A ds)"
    then have kl: "k < length ds" using argsort_set [OF ok, of ds] by simp
    have "filter (\<lambda>x. ds ! k = ds ! x) (A ds) = filter (\<lambda>x. k = x) (A ds)"
      using argsort_set [OF ok, of ds] kl by (intro filter_cong refl) (auto dest: inj)
    also have "\<dots> = [k]"
      using k argsort_distinct [OF ok, of ds] by (simp add: filter_eq_distinct)
    also have "[k] = filter (\<lambda>x. k = x) [0..<length ds]"
      using kl by (simp add: filter_eq_distinct)
    also have "\<dots> = filter (\<lambda>x. ds ! k = ds ! x) [0..<length ds]"
      using kl by (intro filter_cong refl) (auto dest: inj)
    finally show "filter (\<lambda>x. ds ! k = ds ! x) (A ds) = filter (\<lambda>x. ds ! k = ds ! x) [0..<length ds]" .
  qed
  then show ?thesis by (simp add: stable_argsort_def)
qed


section \<open>Evaluating float64 means\<close>

lemma fl_eval:
  assumes "2 powi (e + 52) \<le> \<bar>x\<bar>" and "\<bar>x\<bar> < 2 powi (e + 53)" and "- 1074 \<le> e"
    and "rhe (x / 2 powi e) = m" and "\<bar>real_of_int m * 2 powi e\<bar> < 2 ^ 1024"
  shows "fl x = Num (of_int m * 2 powi e)"
proof -
  have "f64_round x = of_int m * 2 powi e"
    using f64_round_eval [OF assms(1-3)] assms(4) by simp
  then show ?thesis
    using assms(5) unfolding fl_def Let_def abs_less_iff by (simp del: power_numeral)
qed

lemma fl_overflow:
  assumes "2 powi (e + 52) \<le> \<bar>x\<bar>" and "\<bar>x\<bar> < 2 powi (e + 53)" and "- 1074 \<le> e"
    and "rhe (x / 2 powi e) = m" and "2 ^ 1024 \<le> real_of_int m * 2 powi e"
  shows "fl x = PInf"
proof -
  have "f64_round x = of_int m * 2 powi e"
    using f64_round_eval [OF assms(1-3)] assms(4) by simp
  then show ?thesis using assms(5) by (simp add: fl_def Let_def del: power_numeral)
qed


lemma val_F_tenth: "val (F (1 / 10)) = 7205759403792794 / 2 ^ 56"
proof -
  have "f64_round (1 / 10) = of_int (rhe ((1 / 10) / 2 powi (- 56))) * 2 powi (- 56)"
    by (rule f64_round_eval) (simp_all add: power_int_minus)
  also have "rhe ((1 / 10) / 2 powi (- 56)) = 7205759403792794"
    by (simp add: rhe_def power_int_minus Let_def)
  finally have r: "f64_round (1 / 10) = 7205759403792794 / 2 ^ 56"
    by (simp add: power_int_minus)
  have b: "\<bar>f64_round (1 / 10)\<bar> < 2 ^ 1024" unfolding r by simp
  show ?thesis by (simp only: val_F [OF b] r)
qed

lemma np_mean_tenths:
  "np_mean [F (1 / 10), F (1 / 10), F (1 / 10)] = Num (7205759403792795 / 2 ^ 56)"
proof -
  let ?d = "7205759403792794 / 2 ^ 56 :: real"
  let ?d2 = "7205759403792794 / 2 ^ 55 :: real"
  let ?d3 = "5404319552844596 / 2 ^ 54 :: real"
  have d: "is_f64 ?d"
    by (rule is_f64_I [where m = 7205759403792794 and e = "- 56"]) (simp_all add: power_int_minus)
  have 1: "fadd (Num 0) (Num ?d) = Num ?d" using d by (simp only: fadd.simps add_0 fl_id)
  have "fl (?d + ?d) = Num (of_int 7205759403792794 * 2 powi (- 55))"
    by (rule fl_eval) (simp_all add: rhe_def power_int_minus Let_def)
  then have 2: "fadd (Num ?d) (Num ?d) = Num ?d2" by (simp add: power_int_minus)
  have "fl (?d2 + ?d) = Num (of_int 5404319552844596 * 2 powi (- 54))"
    by (rule fl_eval) (simp_all add: rhe_def power_int_minus Let_def)
  then have 3: "fadd (Num ?d2) (Num ?d) = Num ?d3" by (simp add: power_int_minus)
  have "fl (?d3 / real 3) = Num (of_int 7205759403792795 * 2 powi (- 56))"
    by (rule fl_eval) (simp_all add: rhe_def power_int_minus Let_def)
  then have 4: "fdiv (Num ?d3) 3 = Num (7205759403792795 / 2 ^ 56)" by (simp add: power_int_minus)
  have m: "map (\<lambda>x. Num (val x)) [F (1 / 10), F (1 / 10), F (1 / 10)] = [Num ?d, Num ?d, Num ?d]"
    by (simp only: list.map val_F_tenth)
  have "pairwise_sum [Num ?d, Num ?d, Num ?d] = foldl fadd (Num 0) [Num ?d, Num ?d, Num ?d]"
    by (rule pairwise_sum_small) simp
  also have "\<dots> = Num ?d3" by (simp only: foldl_Cons foldl_Nil 1 2 3)
  finally have s: "pairwise_sum [Num ?d, Num ?d, Num ?d] = Num ?d3" .
  have l: "length [F (1 / 10), F (1 / 10), F (1 / 10)] = 3" by simp
  show ?thesis by (simp only: np_mean_def m s l 4)
qed





lemma val_F_1e308: "val (F (10 ^ 308)) = 5010420900022432 * 2 ^ 971"
proof -
  have "f64_round (10 ^ 308) = of_int (rhe (10 ^ 308 / 2 powi 971)) * 2 powi 971"
    by (rule f64_round_eval) simp_all
  also have "rhe (10 ^ 308 / 2 powi 971) = 5010420900022432"
    by (simp add: rhe_def Let_def)
  finally have r: "f64_round (10 ^ 308) = 5010420900022432 * 2 ^ 971" by simp
  have b: "\<bar>f64_round (10 ^ 308)\<bar> < 2 ^ 1024" unfolding r by simp
  show ?thesis by (simp only: val_F [OF b] r)
qed

lemma np_mean_huge: "np_mean [F (10 ^ 308), F (10 ^ 308)] = PInf"
proof -
  let ?v = "5010420900022432 * 2 ^ 971 :: real"
  have v: "is_f64 ?v" by (rule is_f64_I [where m = 5010420900022432 and e = 971]) simp_all
  have 1: "fadd (Num 0) (Num ?v) = Num ?v" using v by (simp only: fadd.simps add_0 fl_id)
  have "fl (?v + ?v) = PInf"
    by (rule fl_overflow [where e = 972 and m = 5010420900022432]) (simp_all add: rhe_def Let_def)
  then have 2: "fadd (Num ?v) (Num ?v) = PInf" by (simp only: fadd.simps)
  have m: "map (\<lambda>x. Num (val x)) [F (10 ^ 308), F (10 ^ 308)] = [Num ?v, Num ?v]"
    by (simp only: list.map val_F_1e308)
  have "pairwise_sum [Num ?v, Num ?v] = foldl fadd (Num 0) [Num ?v, Num ?v]"
    by (rule pairwise_sum_small) simp
  also have "\<dots> = PInf" by (simp only: foldl_Cons foldl_Nil 1 2)
  finally have s: "pairwise_sum [Num ?v, Num ?v] = PInf" .
  show ?thesis by (simp only: np_mean_def m s fdiv.simps)
qed

section \<open>Means of selections\<close>

lemmas run_sel =
  predict_def get_distances_def enumerate_eq_zip euc_def broadcast_sub_def norm2_def upt_rec
  get_k_nearest_def slice_to_def get_predicted_value_def fancy_index_def
  stable_argsort_def KNN_init_def fit_def

lemma abs_sum_mset: "mset us = mset vs \<Longrightarrow> abs_sum us = abs_sum vs"
proof -
  assume "mset us = mset vs"
  then have "mset (map abs us) = mset (map abs vs)" by (simp only: mset_map)
  then have "sum_mset (mset (map abs us)) = sum_mset (mset (map abs vs))" by simp
  then show ?thesis by (simp only: abs_sum_def sum_mset_sum_list)
qed


lemma abs_sum_submset:
  assumes "mset us \<subseteq># mset vs"
  shows "abs_sum us \<le> abs_sum vs"
proof -
  obtain C where C: "mset vs = mset us + C" using assms by (auto simp: mset_subset_eq_exists_conv)
  obtain ws where ws: "C = mset ws" by (metis ex_mset)
  have "mset vs = mset (us @ ws)" by (simp add: C ws)
  then have "abs_sum vs = abs_sum (us @ ws)" by (rule abs_sum_mset)
  then show ?thesis using abs_sum_nonneg [of ws] by simp
qed


lemma mean_bounds:
  fixes xs :: "real list"
  assumes "xs \<noteq> []" and "\<forall>x\<in>set xs. lo \<le> x \<and> x \<le> hi"
  shows "lo \<le> sum_list xs / real (length xs) \<and> sum_list xs / real (length xs) \<le> hi"
proof -
  have "sum_list xs \<le> sum_list (map (\<lambda>_. hi) xs)"
    using assms(2) by (intro sum_list_mono [of xs "\<lambda>x. x" "\<lambda>_. hi", simplified]) simp
  then have hi: "sum_list xs \<le> hi * real (length xs)" by (simp add: sum_list_triv mult.commute)
  have "sum_list (map (\<lambda>_. lo) xs) \<le> sum_list xs"
    using assms(2) by (intro sum_list_mono [of xs "\<lambda>_. lo" "\<lambda>x. x", simplified]) simp
  then have lo: "lo * real (length xs) \<le> sum_list xs" by (simp add: sum_list_triv mult.commute)
  have pos: "0 < real (length xs)" using assms(1) by simp
  show ?thesis using lo hi pos by (simp add: pos_le_divide_eq pos_divide_le_eq)
qed

lemma np_mean_within:
  assumes sub: "mset sel \<subseteq># mset ys" and ne: "sel \<noteq> []"
    and exact: "length sel = 1 \<or> ((\<forall>y\<in>set ys. val y \<in> \<int>) \<and> abs_sum (map val ys) \<le> 2 ^ 53)"
  shows "\<exists>v. np_mean sel = Num v \<and> Min (val ` set ys) \<le> v \<and> v \<le> Max (val ` set ys)"
proof -
  let ?lo = "Min (val ` set ys)" and ?hi = "Max (val ` set ys)"
  have ss: "set sel \<subseteq> set ys" using set_mset_mono [OF sub] by simp
  have rng: "?lo \<le> val y \<and> val y \<le> ?hi" if "y \<in> set sel" for y
    using that ss by (auto intro: Min_le Max_ge)
  show ?thesis
  proof (cases "length sel = 1")
    case True
    then obtain y where y: "sel = [y]" by (cases sel) auto
    then show ?thesis using rng [of y] by simp
  next
    case False
    then have ints: "\<forall>y\<in>set ys. val y \<in> \<int>" and b: "abs_sum (map val ys) \<le> 2 ^ 53"
      using exact by simp_all
    have "mset (map val sel) \<subseteq># mset (map val ys)"
      using image_mset_subseteq_mono [OF sub, of val] by simp
    then have "abs_sum (map val sel) \<le> 2 ^ 53" using abs_sum_submset b by fastforce
    moreover have "\<forall>y\<in>set sel. val y \<in> \<int>" using ints ss by auto
    ultimately have m: "np_mean sel = fl (sum_list (map val sel) / real (length sel))"
      using ne by (intro np_mean_exact)
    have "ys \<noteq> []" using ss ne by auto
    then have "?lo \<in> val ` set ys" "?hi \<in> val ` set ys" by (simp_all add: Min_in Max_in)
    then have f: "is_f64 ?lo" "is_f64 ?hi" by auto
    have "?lo \<le> sum_list (map val sel) / real (length (map val sel))
          \<and> sum_list (map val sel) / real (length (map val sel)) \<le> ?hi"
      using ne rng by (intro mean_bounds) auto
    then have "\<exists>r. fl (sum_list (map val sel) / real (length sel)) = Num r \<and> ?lo \<le> r \<and> r \<le> ?hi"
      using f by (intro fl_between) simp_all
    then show ?thesis by (simp only: m)
  qed
qed


lemma example_predict_all:
  "3 \<le> k \<Longrightarrow> snd (predict stable_argsort \<lparr>X_train = Some [[0, 0], [10, 0], [0, 10]], y_train = Some [a, b, c]\<rparr> [[1, 0]] k)
   = Inr [np_mean [a, b, c]]"
  by (simp add: run_sel real_le_rsqrt)

lemma example_predict_two:
  "snd (predict stable_argsort \<lparr>X_train = Some [[0, 0], [10, 0], [0, 10]], y_train = Some [a, b, c]\<rparr> [[1, 0]] 2)
   = Inr [np_mean [a, b]]"
  by (simp add: run_sel real_le_rsqrt)


lemma line_predict_two:
  "snd (predict stable_argsort \<lparr>X_train = Some [[0], [1], [10]], y_train = Some [a, b, c]\<rparr> [[0]] 2)
   = Inr [np_mean [a, b]]"
  by (simp add: run_sel)

lemma np_mean_example: "np_mean [F 10, F 20, F 30] = Num 20"
  by (simp add: np_mean_def pairwise_sum_small fl_numeral val_F_numeral)

lemma np_mean_example_two: "np_mean [F 10, F 20] = Num 15"
  by (simp add: np_mean_def pairwise_sum_small fl_numeral val_F_numeral)



lemma tenth_fit:
  "fit KNN_init [[0, 0], [10, 0], [0, 10]] [F (1 / 10), F (1 / 10), F (1 / 10)] = Inr tenth_model"
  by (simp only: fit_def KNN_init_def tenth_model_def) simp

lemma huge_fit:
  "fit KNN_init [[0], [1], [10]] [F (10 ^ 308), F (10 ^ 308), F 0] = Inr huge_model"
  by (simp only: fit_def KNN_init_def huge_model_def) simp

lemma example_targets_exact:
  "(\<forall>y\<in>set [F 10, F 20, F 30]. val y \<in> \<int>) \<and> abs_sum (map val [F 10, F 20, F 30]) \<le> 2 ^ 53"
  by (simp add: val_F_numeral)

section \<open>Properties of predict and fit\<close>






text \<open>
  C4, amended.  The class has no check of \<open>k\<close>.  On a fitted model with queries of the
  training dimensionality, \<open>predict\<close> with \<open>k = 0\<close> or \<open>k > n_train\<close> raises nothing and
  returns one value per query: \<open>NaN\<close> (the mean of an empty selection) for \<open>k = 0\<close>, and for
  \<open>k > n_train\<close> what \<open>predict\<close> returns for \<open>k = n_train\<close>.
\<close>

theorem predict_invalid_k_returns:
  assumes "argsort_ok A" and "fit s0 X ys = Inr self" and "length X = length ys"
    and "\<forall>p\<in>set X. length p = d" and "\<forall>q\<in>set qs. length q = d"
    and "k = 0 \<or> int (length X) < k"
  shows "\<exists>ps. snd (predict A self qs k) = Inr ps \<and> length ps = length qs \<and>
           (if k = 0 then ps = replicate (length qs) NaN
            else snd (predict A self qs (int (length X))) = Inr ps)"
proof (cases "k = 0")
  case True
  then show ?thesis
    by (simp add: predict_fitted [OF assms(1-5)] slice_to_def map_replicate_const)
next
  case False
  then have "int (length X) < k" using assms(6) by simp
  then have "slice_to (A (map (euclid q) X)) k = slice_to (A (map (euclid q) X)) (int (length X))"
    for q
    using argsort_length [OF assms(1), of "map (euclid q) X"] by (simp add: slice_to_all)
  then show ?thesis
    using False by (simp add: predict_fitted [OF assms(1-5)])
qed

theorem predict_invalid_k_returns_witness:
  "argsort_ok stable_argsort
   \<and> fit KNN_init [[0, 0], [10, 0], [0, 10]] [F 10, F 20, F 30] = Inr example_model
   \<and> snd (predict stable_argsort example_model [[1, 0], [5, 5]] 0) = Inr [NaN, NaN]"
  using predict_invalid_k_returns [OF stable_argsort_ok example_fit, of 2 "[[1, 0], [5, 5]]" 0]
    stable_argsort_ok example_fit
  by (simp add: numeral_2_eq_2)

theorem predict_invalid_k_counterexample:
  "snd (predict stable_argsort example_model [[1, 0]] 0) = Inr [NaN]
   \<and> snd (predict stable_argsort example_model [[1, 0]] 4) = Inr [Num 20]"
  by (simp add: run_defs)

text \<open>
  C5, amended.  On an instance on which \<open>fit\<close> has not been called, \<open>predict\<close> with at least
  one query fails for every \<open>k\<close> (with \<open>AttributeError\<close>, raised where the first query reads
  the missing training data; the class has no error of its own for this); with an empty
  sequence of queries the loop body never runs and the empty prediction sequence is returned.
\<close>

theorem predict_before_fit:
  "snd (predict A KNN_init qs k) = (if qs = [] then Inr [] else Inl AttributeError)"
  by (cases qs) (simp_all add: predict_def KNN_init_def get_distances_def enumerate_eq_zip upt_rec)

theorem predict_before_fit_witness:
  "snd (predict stable_argsort KNN_init [[1, 0]] 3) = Inl AttributeError"
  using predict_before_fit [of stable_argsort "[[1, 0]]" 3] by simp

theorem predict_before_fit_counterexample:
  "snd (predict stable_argsort KNN_init [] 3) = Inr []"
  by (simp add: run_defs)

text \<open>
  C6, amended.  \<open>fit\<close> never fails: for every feature sequence and every target sequence,
  whatever their lengths and dimensionalities, it stores both unchanged as the training
  data, and the instance it leaves holds nothing else (no distance is computed or stored).
\<close>

theorem fit_stores_unchecked:
  "fit self X y = Inr \<lparr>X_train = Some X, y_train = Some y\<rparr> \<and> (\<forall>e. fit self X y \<noteq> Inl e)"
  by (simp add: fit_def)

theorem fit_stores_unchecked_witness:
  "fit KNN_init [[0, 0], [10, 0], [0, 10]] [F 10, F 20, F 30]
   = Inr \<lparr>X_train = Some [[0, 0], [10, 0], [0, 10]], y_train = Some [F 10, F 20, F 30]\<rparr>"
  using fit_stores_unchecked [of KNN_init "[[0, 0], [10, 0], [0, 10]]" "[F 10, F 20, F 30]"] by simp

theorem fit_shape_mismatch_counterexample:
  "length [[0, 0], [10, 0 :: real]] \<noteq> length [F 10]
   \<and> fit KNN_init [[0, 0], [10, 0]] [F 10]
     = Inr \<lparr>X_train = Some [[0, 0], [10, 0]], y_train = Some [F 10]\<rparr>"
  by (simp add: fit_def KNN_init_def)

text \<open>
  C8.  On a fitted model with queries of the training dimensionality, \<open>predict\<close> returns
  exactly one prediction per query, in the order of the queries: the batch result is the
  concatenation of the results of the calls on each single query with the same \<open>k\<close>, and
  its \<open>m\<close>-th entry is the result of the call on the \<open>m\<close>-th query alone.  This holds for
  every \<open>k\<close>, in particular for every valid one.
\<close>

theorem predict_batch_in_order:
  assumes "argsort_ok A" and "fit s0 X ys = Inr self" and "length X = length ys"
    and "\<forall>p\<in>set X. length p = d" and "\<forall>q\<in>set qs. length q = d"
  shows "\<exists>ps. snd (predict A self qs k) = Inr ps \<and> length ps = length qs \<and>
           concat_results (map (\<lambda>q. snd (predict A self [q] k)) qs) = Inr ps \<and>
           (\<forall>m<length qs. snd (predict A self [qs ! m] k) = Inr [ps ! m])"
proof -
  let ?f = "\<lambda>q. np_mean (map (\<lambda>i. ys ! i) (slice_to (A (map (euclid q) X)) k))"
  have batch: "snd (predict A self qs k) = Inr (map ?f qs)"
    by (rule predict_fitted [OF assms])
  have "snd (predict A self [qs ! m] k) = Inr [?f (qs ! m)]" if "m < length qs" for m
    using predict_fitted [OF assms(1-4), of "[qs ! m]" k] assms(5) that by simp
  then show ?thesis
    using batch predict_concat_results [of A self qs k]
    by (intro exI [of _ "map ?f qs"]) simp
qed

theorem predict_batch_in_order_witness:
  "argsort_ok stable_argsort
   \<and> fit KNN_init [[0, 0], [10, 0], [0, 10]] [F 10, F 20, F 30] = Inr example_model
   \<and> snd (predict stable_argsort example_model [[1, 0], [9, 0]] 1) = Inr [Num 10, Num 20]
   \<and> snd (predict stable_argsort example_model [[1, 0]] 1) = Inr [Num 10]
   \<and> snd (predict stable_argsort example_model [[9, 0]] 1) = Inr [Num 20]"
proof -
  have b: "snd (predict stable_argsort example_model [[1, 0], [9, 0]] 1) = Inr [Num 10, Num 20]"
    by (simp add: run_defs)
  have "\<exists>ps. snd (predict stable_argsort example_model [[1, 0], [9, 0]] 1) = Inr ps
          \<and> length ps = length [[1, 0], [9, 0 :: real]] \<and>
           concat_results (map (\<lambda>q. snd (predict stable_argsort example_model [q] 1))
             [[1, 0], [9, 0]]) = Inr ps \<and>
           (\<forall>m<length [[1, 0], [9, 0 :: real]].
              snd (predict stable_argsort example_model [[[1, 0], [9, 0]] ! m] 1) = Inr [ps ! m])"
    by (rule predict_batch_in_order [OF stable_argsort_ok example_fit, where d = 2]) simp_all
  then have "\<forall>m<2. snd (predict stable_argsort example_model [[[1, 0], [9, 0]] ! m] 1)
                    = Inr [[Num 10, Num 20] ! m]"
    using b by auto
  from this [rule_format, of 0] this [rule_format, of 1]
  show ?thesis using b stable_argsort_ok example_fit by simp
qed




text \<open>
  C10, amended.  On a fitted model and \<open>1 \<le> k \<le> n_train\<close>, every prediction is \<open>np.mean\<close>
  in float64 of \<open>k\<close> of the stored targets.  It lies between the minimum and the maximum of
  the stored targets when \<open>k = 1\<close>, and when the targets are integer-valued with magnitudes
  summing to at most \<open>2 ^ 53\<close> (every addition is then exact, and rounding the mean to the
  nearest double cannot leave the range).  Otherwise rounding can put it outside the range
  (three targets \<open>0.1\<close>, \<open>k = 3\<close>: \<open>0.10000000000000002\<close>) and overflow can make it infinite
  (targets \<open>1e308, 1e308, 0\<close>, \<open>k = 2\<close>: \<open>inf\<close>).
\<close>

theorem predict_within_target_range:
  assumes "argsort_ok A" and "fit s0 X ys = Inr self" and "length X = length ys"
    and "\<forall>p\<in>set X. length p = d" and "\<forall>q\<in>set qs. length q = d"
    and "1 \<le> k" and "k \<le> int (length X)"
  shows "\<exists>sels. length sels = length qs \<and>
           (\<forall>sel\<in>set sels. length sel = nat k \<and> mset sel \<subseteq># mset ys) \<and>
           snd (predict A self qs k) = Inr (map np_mean sels) \<and>
           (k = 1 \<or> ((\<forall>y\<in>set ys. val y \<in> \<int>) \<and> abs_sum (map val ys) \<le> 2 ^ 53) \<longrightarrow>
              (\<forall>sel\<in>set sels. \<exists>v. np_mean sel = Num v \<and>
                 Min (val ` set ys) \<le> v \<and> v \<le> Max (val ` set ys)))"
proof -
  let ?idx = "\<lambda>q. slice_to (A (map (euclid q) X)) k"
  let ?sel = "\<lambda>q. map (\<lambda>i. ys ! i) (?idx q)"
  have res: "snd (predict A self qs k) = Inr (map (\<lambda>q. np_mean (?sel q)) qs)"
    by (rule predict_fitted [OF assms(1-5)])
  have idx: "?idx q = take (nat k) (A (map (euclid q) X))" for q
    using assms(6) by (simp add: slice_to_def)
  have len: "length (?sel q) = nat k" for q
    using argsort_length [OF assms(1), of "map (euclid q) X"] assms(7) by (simp add: idx)
  have sub: "mset (?sel q) \<subseteq># mset ys" for q
  proof -
    let ?p = "A (map (euclid q) X)"
    have "mset (take (nat k) ?p) \<subseteq># mset (take (nat k) ?p) + mset (drop (nat k) ?p)" by simp
    also have "\<dots> = mset ?p" by (simp only: union_code append_take_drop_id)
    finally have "image_mset (\<lambda>i. ys ! i) (mset (take (nat k) ?p))
        \<subseteq># image_mset (\<lambda>i. ys ! i) (mset ?p)"
      by (rule image_mset_subseteq_mono)
    then show ?thesis
      using argsort_targets [OF assms(1), of ys "map (euclid q) X"] assms(3) by (simp add: idx)
  qed
  have ne: "?sel q \<noteq> []" for q
    using len [of q] assms(6) by auto
  have within: "\<exists>v. np_mean (?sel q) = Num v \<and> Min (val ` set ys) \<le> v \<and> v \<le> Max (val ` set ys)"
    if "k = 1 \<or> ((\<forall>y\<in>set ys. val y \<in> \<int>) \<and> abs_sum (map val ys) \<le> 2 ^ 53)" for q
    using that len [of q] by (intro np_mean_within [OF sub ne]) auto
  show ?thesis
    using res len sub within by (intro exI [of _ "map ?sel qs"]) (auto simp: o_def)
qed

theorem predict_within_target_range_witness:
  "argsort_ok stable_argsort
   \<and> fit KNN_init [[0, 0], [10, 0], [0, 10]] [F 10, F 20, F 30] = Inr example_model
   \<and> snd (predict stable_argsort example_model [[1, 0]] 2) = Inr [Num 15]
   \<and> Min (val ` set [F 10, F 20, F 30]) \<le> 15 \<and> 15 \<le> Max (val ` set [F 10, F 20, F 30])"
proof -
  have b: "snd (predict stable_argsort example_model [[1, 0]] 2) = Inr [Num 15]"
    unfolding example_model_def by (simp only: example_predict_two np_mean_example_two)
  have "\<exists>sels. length sels = length [[1, 0 :: real]] \<and>
           (\<forall>sel\<in>set sels. length sel = nat 2 \<and> mset sel \<subseteq># mset [F 10, F 20, F 30]) \<and>
           snd (predict stable_argsort example_model [[1, 0]] 2) = Inr (map np_mean sels) \<and>
           (2 = (1 :: int) \<or> ((\<forall>y\<in>set [F 10, F 20, F 30]. val y \<in> \<int>)
               \<and> abs_sum (map val [F 10, F 20, F 30]) \<le> 2 ^ 53) \<longrightarrow>
              (\<forall>sel\<in>set sels. \<exists>v. np_mean sel = Num v \<and>
                 Min (val ` set [F 10, F 20, F 30]) \<le> v \<and> v \<le> Max (val ` set [F 10, F 20, F 30])))"
    by (rule predict_within_target_range [OF stable_argsort_ok example_fit, where d = 2]) simp_all
  then obtain sels where sels: "snd (predict stable_argsort example_model [[1, 0]] 2)
        = Inr (map np_mean sels)"
    and imp: "2 = (1 :: int) \<or> ((\<forall>y\<in>set [F 10, F 20, F 30]. val y \<in> \<int>)
               \<and> abs_sum (map val [F 10, F 20, F 30]) \<le> 2 ^ 53) \<longrightarrow>
              (\<forall>sel\<in>set sels. \<exists>v. np_mean sel = Num v \<and>
                 Min (val ` set [F 10, F 20, F 30]) \<le> v \<and> v \<le> Max (val ` set [F 10, F 20, F 30]))"
    by (elim exE conjE)
  have w: "\<forall>sel\<in>set sels. \<exists>v. np_mean sel = Num v \<and>
                 Min (val ` set [F 10, F 20, F 30]) \<le> v \<and> v \<le> Max (val ` set [F 10, F 20, F 30])"
    using imp example_targets_exact by (elim impE) (rule disjI2)
  have "Inr [Num 15] = (Inr (map np_mean sels) :: error + npfloat list)"
    using sels unfolding b .
  then obtain sel where "sels = [sel]" "np_mean sel = Num 15" by (cases sels) auto
  with w have "Min (val ` set [F 10, F 20, F 30]) \<le> 15 \<and> 15 \<le> Max (val ` set [F 10, F 20, F 30])"
    by simp
  then show ?thesis using b stable_argsort_ok example_fit by (simp only: simp_thms)
qed

theorem predict_outside_target_range_counterexample:
  "fit KNN_init [[0, 0], [10, 0], [0, 10]] [F (1 / 10), F (1 / 10), F (1 / 10)] = Inr tenth_model
   \<and> snd (predict stable_argsort tenth_model [[1, 0]] 3) = Inr [Num (7205759403792795 / 2 ^ 56)]
   \<and> Max (val ` set [F (1 / 10), F (1 / 10), F (1 / 10)]) < 7205759403792795 / 2 ^ 56
   \<and> fit KNN_init [[0], [1], [10]] [F (10 ^ 308), F (10 ^ 308), F 0] = Inr huge_model
   \<and> snd (predict stable_argsort huge_model [[0]] 2) = Inr [PInf]"
proof -
  have "snd (predict stable_argsort tenth_model [[1, 0]] 3) = Inr [Num (7205759403792795 / 2 ^ 56)]"
    unfolding tenth_model_def by (simp only: example_predict_all [OF order_refl] np_mean_tenths)
  moreover have "Max (val ` set [F (1 / 10), F (1 / 10), F (1 / 10)]) < 7205759403792795 / 2 ^ 56"
    by (simp add: val_F_tenth)
  moreover have "snd (predict stable_argsort huge_model [[0]] 2) = Inr [PInf]"
    unfolding huge_model_def by (simp only: line_predict_two np_mean_huge)
  ultimately show ?thesis using tenth_fit huge_fit by (simp only: simp_thms)
qed

end
